theory Spec2Isabelle
  imports Main "HOL-Library.Sublist"
begin

section \<open>Data model of the lexer (main.go)\<close>

text \<open>
  A Go \<^verbatim>\<open>rune\<close> is an \<^verbatim>\<open>int32\<close>; the lexer only compares runes, so they are
  modelled as integers. A Go string is modelled by the list of its code points: the lexer
  builds every string from runes (\<^verbatim>\<open>WriteRune\<close>, \<^verbatim>\<open>string(src[a:b])\<close>) and
  \<^verbatim>\<open>[]rune(input)\<close> yields Unicode scalar values only, on which these conversions
  lose nothing.
\<close>

type_synonym rune = int
type_synonym gostring = "rune list"

abbreviation rn :: "char \<Rightarrow> rune" where
  "rn c \<equiv> of_char c"

definition gostr :: "string \<Rightarrow> gostring" where
  "gostr s = map of_char s"

text \<open>\<^verbatim>\<open>type TokenType string\<close>: the token kinds are string constants.\<close>

type_synonym TokenType = string

named_theorems TokenType_defs

definition KW_PKG :: TokenType where [TokenType_defs]: "KW_PKG = ''KW_PKG''"
definition KW_IMP :: TokenType where [TokenType_defs]: "KW_IMP = ''KW_IMP''"
definition KW_DEF :: TokenType where [TokenType_defs]: "KW_DEF = ''KW_DEF''"
definition KW_VAR :: TokenType where [TokenType_defs]: "KW_VAR = ''KW_VAR''"
definition KW_CONS :: TokenType where [TokenType_defs]: "KW_CONS = ''KW_CONS''"
definition KW_TYPE :: TokenType where [TokenType_defs]: "KW_TYPE = ''KW_TYPE''"
definition KW_STRUCT :: TokenType where [TokenType_defs]: "KW_STRUCT = ''KW_STRUCT''"
definition KW_INTERFACE :: TokenType where [TokenType_defs]: "KW_INTERFACE = ''KW_INTERFACE''"
definition KW_MAPPING :: TokenType where [TokenType_defs]: "KW_MAPPING = ''KW_MAPPING''"
definition KW_CHANNEL :: TokenType where [TokenType_defs]: "KW_CHANNEL = ''KW_CHANNEL''"
definition KW_J :: TokenType where [TokenType_defs]: "KW_J = ''KW_J''"
definition KW_SELECT :: TokenType where [TokenType_defs]: "KW_SELECT = ''KW_SELECT''"
definition KW_LATER :: TokenType where [TokenType_defs]: "KW_LATER = ''KW_LATER''"
definition KW_RET :: TokenType where [TokenType_defs]: "KW_RET = ''KW_RET''"
definition KW_IF :: TokenType where [TokenType_defs]: "KW_IF = ''KW_IF''"
definition KW_ELSE :: TokenType where [TokenType_defs]: "KW_ELSE = ''KW_ELSE''"
definition KW_SWITCH :: TokenType where [TokenType_defs]: "KW_SWITCH = ''KW_SWITCH''"
definition KW_CASE :: TokenType where [TokenType_defs]: "KW_CASE = ''KW_CASE''"
definition KW_FALL :: TokenType where [TokenType_defs]: "KW_FALL = ''KW_FALL''"
definition KW_FR :: TokenType where [TokenType_defs]: "KW_FR = ''KW_FR''"
definition KW_RANGE :: TokenType where [TokenType_defs]: "KW_RANGE = ''KW_RANGE''"
definition KW_BREAK :: TokenType where [TokenType_defs]: "KW_BREAK = ''KW_BREAK''"
definition KW_CONTINUE :: TokenType where [TokenType_defs]: "KW_CONTINUE = ''KW_CONTINUE''"
definition KW_JOTO :: TokenType where [TokenType_defs]: "KW_JOTO = ''KW_JOTO''"
definition KW_DFT :: TokenType where [TokenType_defs]: "KW_DFT = ''KW_DFT''"
definition KW_PANIC :: TokenType where [TokenType_defs]: "KW_PANIC = ''KW_PANIC''"
definition KW_RECOVER :: TokenType where [TokenType_defs]: "KW_RECOVER = ''KW_RECOVER''"
definition IDENT :: TokenType where [TokenType_defs]: "IDENT = ''IDENT''"
definition INT_LIT :: TokenType where [TokenType_defs]: "INT_LIT = ''INT_LIT''"
definition FLOAT_LIT :: TokenType where [TokenType_defs]: "FLOAT_LIT = ''FLOAT_LIT''"
definition STRING_LIT :: TokenType where [TokenType_defs]: "STRING_LIT = ''STRING_LIT''"
definition CHAR_LIT :: TokenType where [TokenType_defs]: "CHAR_LIT = ''CHAR_LIT''"
definition TYPE_NAME :: TokenType where [TokenType_defs]: "TYPE_NAME = ''TYPE_NAME''"
definition LPAREN :: TokenType where [TokenType_defs]: "LPAREN = ''LPAREN''"
definition RPAREN :: TokenType where [TokenType_defs]: "RPAREN = ''RPAREN''"
definition LBRACE :: TokenType where [TokenType_defs]: "LBRACE = ''LBRACE''"
definition RBRACE :: TokenType where [TokenType_defs]: "RBRACE = ''RBRACE''"
definition LBRACK :: TokenType where [TokenType_defs]: "LBRACK = ''LBRACK''"
definition RBRACK :: TokenType where [TokenType_defs]: "RBRACK = ''RBRACK''"
definition COMMA :: TokenType where [TokenType_defs]: "COMMA = ''COMMA''"
definition SEMI :: TokenType where [TokenType_defs]: "SEMI = ''SEMI''"
definition COLON :: TokenType where [TokenType_defs]: "COLON = ''COLON''"
definition DOT :: TokenType where [TokenType_defs]: "DOT = ''DOT''"
definition ASSIGN :: TokenType where [TokenType_defs]: "ASSIGN = ''ASSIGN''"
definition DECL :: TokenType where [TokenType_defs]: "DECL = ''DECL''"
definition PLUS :: TokenType where [TokenType_defs]: "PLUS = ''PLUS''"
definition MINUS :: TokenType where [TokenType_defs]: "MINUS = ''MINUS''"
definition STAR :: TokenType where [TokenType_defs]: "STAR = ''STAR''"
definition SLASH :: TokenType where [TokenType_defs]: "SLASH = ''SLASH''"
definition PERCENT :: TokenType where [TokenType_defs]: "PERCENT = ''PERCENT''"
definition LT :: TokenType where [TokenType_defs]: "LT = ''LT''"
definition GT :: TokenType where [TokenType_defs]: "GT = ''GT''"
definition LE :: TokenType where [TokenType_defs]: "LE = ''LE''"
definition GE :: TokenType where [TokenType_defs]: "GE = ''GE''"
definition EQ :: TokenType where [TokenType_defs]: "EQ = ''EQ''"
definition NE :: TokenType where [TokenType_defs]: "NE = ''NE''"
definition ANDAND :: TokenType where [TokenType_defs]: "ANDAND = ''ANDAND''"
definition OROR :: TokenType where [TokenType_defs]: "OROR = ''OROR''"
definition BAND :: TokenType where [TokenType_defs]: "BAND = ''BAND''"
definition BOR :: TokenType where [TokenType_defs]: "BOR = ''BOR''"
definition BXOR :: TokenType where [TokenType_defs]: "BXOR = ''BXOR''"
definition SHL :: TokenType where [TokenType_defs]: "SHL = ''SHL''"
definition SHR :: TokenType where [TokenType_defs]: "SHR = ''SHR''"
definition ADDEQ :: TokenType where [TokenType_defs]: "ADDEQ = ''ADDEQ''"
definition SUBEQ :: TokenType where [TokenType_defs]: "SUBEQ = ''SUBEQ''"
definition MULEQ :: TokenType where [TokenType_defs]: "MULEQ = ''MULEQ''"
definition DIVEQ :: TokenType where [TokenType_defs]: "DIVEQ = ''DIVEQ''"
definition MODEQ :: TokenType where [TokenType_defs]: "MODEQ = ''MODEQ''"
definition ANDEQ :: TokenType where [TokenType_defs]: "ANDEQ = ''ANDEQ''"
definition OREQ :: TokenType where [TokenType_defs]: "OREQ = ''OREQ''"
definition XOREQ :: TokenType where [TokenType_defs]: "XOREQ = ''XOREQ''"
definition SHLEQ :: TokenType where [TokenType_defs]: "SHLEQ = ''SHLEQ''"
definition SHREQ :: TokenType where [TokenType_defs]: "SHREQ = ''SHREQ''"
definition CH_SEND :: TokenType where [TokenType_defs]: "CH_SEND = ''CH_SEND''"
definition BANG :: TokenType where [TokenType_defs]: "BANG = ''BANG''"

text \<open>
  A \<^verbatim>\<open>float64\<close> is kept as its 64-bit pattern. No scanner builds one: the fields
  \<^verbatim>\<open>IntVal\<close> and \<^verbatim>\<open>FloatVal\<close> of a token are always \<^verbatim>\<open>nil\<close>.
\<close>

datatype float64 = Float64 nat

record Token =
  Type :: TokenType
  Lexeme :: gostring
  Line :: nat
  Column :: nat
  IntVal :: "int option"
  FloatVal :: "float64 option"

text \<open>
  The struct \<^verbatim>\<open>Lexer\<close>. The cursor \<^verbatim>\<open>i\<close>, \<^verbatim>\<open>line\<close> and \<^verbatim>\<open>col\<close> are Go
  \<^verbatim>\<open>int\<close>s that start at 0, 1, 1 and are only ever incremented (or reset to 1), at most
  once per code point of the input, so they are natural numbers here. The field
  \<^verbatim>\<open>length\<close> is set to \<^verbatim>\<open>len(src)\<close> by \<^verbatim>\<open>NewLexer\<close>, the only constructor, and
  never assigned again; it is the derived quantity \<open>lx_length\<close>.
\<close>

record Lexer =
  lx_src :: "rune list"
  lx_i :: nat
  lx_line :: nat
  lx_col :: nat
  lx_tokens :: "Token list"
  lx_errors :: "gostring list"

definition lx_length :: "Lexer \<Rightarrow> nat" where
  "lx_length lx = length (lx_src lx)"

definition NewLexer :: "rune list \<Rightarrow> Lexer" where
  "NewLexer rs = \<lparr>lx_src = rs, lx_i = 0, lx_line = 1, lx_col = 1, lx_tokens = [], lx_errors = []\<rparr>"

subsection \<open>The Go standard library's Unicode tables\<close>

text \<open>
  \<^verbatim>\<open>unicode.IsLetter\<close>, \<^verbatim>\<open>unicode.IsDigit\<close>, \<^verbatim>\<open>unicode.ToLower\<close> and the
  \<^verbatim>\<open>%q\<close> verb of \<^verbatim>\<open>fmt\<close> decide Latin-1 (or ASCII) code points by fixed
  comparisons and everything beyond by the range tables of package \<^verbatim>\<open>unicode\<close>. The
  tables are not part of the repository: they are a parameter of the model, and no theorem
  below assumes anything about them.
\<close>

record unicode_tables =
  Letter :: "rune \<Rightarrow> bool"
  Digit :: "rune \<Rightarrow> bool"
  LowerCase :: "rune \<Rightarrow> rune"
  QuoteRune :: "rune \<Rightarrow> gostring"

text \<open>Tables with nothing beyond Latin-1, for evaluating the lexer on concrete inputs.\<close>

definition no_tables :: unicode_tables where
  "no_tables = \<lparr>Letter = (\<lambda>_. False), Digit = (\<lambda>_. False), LowerCase = (\<lambda>r. r), QuoteRune = (\<lambda>_. [])\<rparr>"

definition IsLetter :: "unicode_tables \<Rightarrow> rune \<Rightarrow> bool" where
  "IsLetter U r =
     (if 0 \<le> r \<and> r \<le> 0xFF then
        (0x41 \<le> r \<and> r \<le> 0x5A) \<or> (0x61 \<le> r \<and> r \<le> 0x7A) \<or> r = 0xAA \<or> r = 0xB5 \<or> r = 0xBA
        \<or> (0xC0 \<le> r \<and> r \<le> 0xD6) \<or> (0xD8 \<le> r \<and> r \<le> 0xF6) \<or> (0xF8 \<le> r \<and> r \<le> 0xFF)
      else Letter U r)"

definition IsDigit :: "unicode_tables \<Rightarrow> rune \<Rightarrow> bool" where
  "IsDigit U r = (if r \<le> 0xFF then rn CHR ''0'' \<le> r \<and> r \<le> rn CHR ''9'' else Digit U r)"

definition ToLower_rune :: "unicode_tables \<Rightarrow> rune \<Rightarrow> rune" where
  "ToLower_rune U r =
     (if r \<le> 0x7F then (if rn CHR ''A'' \<le> r \<and> r \<le> rn CHR ''Z'' then r + (rn CHR ''a'' - rn CHR ''A'') else r)
      else LowerCase U r)"

definition ToLower :: "unicode_tables \<Rightarrow> gostring \<Rightarrow> gostring" where
  "ToLower U s = map (ToLower_rune U) s"

text \<open>
  \<^verbatim>\<open>fmt.Sprintf("%q", ch)\<close> with \<^verbatim>\<open>ch\<close> a rune is \<^verbatim>\<open>strconv.QuoteRune\<close>: a
  single-quoted Go character literal. A printable ASCII code point stands for itself,
  with a backslash before the single quote and the backslash.
\<close>

definition Sprintf_q :: "unicode_tables \<Rightarrow> rune \<Rightarrow> gostring" where
  "Sprintf_q U r =
     (if 0x20 \<le> r \<and> r \<le> 0x7E then
        [rn CHR 0x27] @ (if r = rn CHR 0x27 \<or> r = rn CHR 0x5C then [rn CHR 0x5C, r] else [r]) @ [rn CHR 0x27]
      else QuoteRune U r)"

text \<open>\<^verbatim>\<open>%d\<close> of a non-negative integer.\<close>

fun Sprintf_d :: "nat \<Rightarrow> gostring" where
  "Sprintf_d n = (if n < 10 then [rn CHR ''0'' + int n] else Sprintf_d (n div 10) @ [rn CHR ''0'' + int (n mod 10)])"

declare Sprintf_d.simps [simp del]

subsection \<open>Cursor primitives\<close>

datatype panic = IndexOutOfRange | SliceBoundsOutOfRange

text \<open>
  \<^verbatim>\<open>peek\<close> guards the upper end of the buffer only. With a negative index
  \<^verbatim>\<open>lx.src[j]\<close> is a run-time panic of Go.
\<close>

definition peek :: "Lexer \<Rightarrow> int \<Rightarrow> panic + rune" where
  "peek lx n =
     (let j = int (lx_i lx) + n in
      if j \<ge> int (lx_length lx) then Inr 0
      else if j < 0 then Inl IndexOutOfRange
      else Inr (lx_src lx ! nat j))"

text \<open>
  Every call but one passes a literal offset 0, 1 or 2. Then the index is not negative
  and \<^verbatim>\<open>peek\<close> cannot panic; \<open>peek_at\<close> is \<^verbatim>\<open>peek\<close> at such an offset
  (lemma \<open>peek_nonneg\<close>).
\<close>

definition peek_at :: "Lexer \<Rightarrow> nat \<Rightarrow> rune" where
  "peek_at lx n = (if lx_i lx + n \<ge> lx_length lx then 0 else lx_src lx ! (lx_i lx + n))"

definition advance :: "Lexer \<Rightarrow> rune \<times> Lexer" where
  "advance lx =
     (if lx_i lx \<ge> lx_length lx then (0, lx)
      else
        let ch = lx_src lx ! lx_i lx;
            lx1 = lx\<lparr>lx_i := lx_i lx + 1\<rparr>
        in if ch = rn CHR 0x0A
           then (ch, lx1\<lparr>lx_line := lx_line lx1 + 1, lx_col := 1\<rparr>)
           else (ch, lx1\<lparr>lx_col := lx_col lx1 + 1\<rparr>))"

definition add :: "TokenType \<Rightarrow> gostring \<Rightarrow> nat \<Rightarrow> nat \<Rightarrow> int option \<Rightarrow> float64 option \<Rightarrow> Lexer \<Rightarrow> Lexer" where
  "add tt lexeme l c iv fv lx =
     lx\<lparr>lx_tokens := lx_tokens lx @ [\<lparr>Type = tt, Lexeme = lexeme, Line = l, Column = c, IntVal = iv, FloatVal = fv\<rparr>]\<rparr>"

text \<open>\<^verbatim>\<open>fmt.Sprintf("lexical error at %d:%d: %s", l, c, msg)\<close>\<close>

definition Sprintf_error :: "nat \<Rightarrow> nat \<Rightarrow> gostring \<Rightarrow> gostring" where
  "Sprintf_error l c msg =
     gostr ''lexical error at '' @ Sprintf_d l @ gostr '':'' @ Sprintf_d c @ gostr '': '' @ msg"

definition errorAt :: "nat \<Rightarrow> nat \<Rightarrow> gostring \<Rightarrow> Lexer \<Rightarrow> Lexer" where
  "errorAt l c msg lx = lx\<lparr>lx_errors := lx_errors lx @ [Sprintf_error l c msg]\<rparr>"

definition isIdentStart :: "unicode_tables \<Rightarrow> rune \<Rightarrow> bool" where
  "isIdentStart U r = (r = rn CHR ''_'' \<or> IsLetter U r)"

definition isIdentPart :: "unicode_tables \<Rightarrow> rune \<Rightarrow> bool" where
  "isIdentPart U r = (r = rn CHR ''_'' \<or> IsLetter U r \<or> IsDigit U r)"

lemma peek_nonneg: "peek lx (int n) = Inr (peek_at lx n)"
  by (simp add: peek_def peek_at_def Let_def nat_int_add)

text \<open>\<^verbatim>\<open>xs[a:b]\<close> panics unless \<^verbatim>\<open>a <= b <= len(xs)\<close>.\<close>

definition slice :: "'a list \<Rightarrow> nat \<Rightarrow> nat \<Rightarrow> panic + 'a list" where
  "slice xs a b = (if a \<le> b \<and> b \<le> length xs then Inr (take (b - a) (drop a xs)) else Inl SliceBoundsOutOfRange)"

subsection \<open>The vocabulary tables\<close>

definition keywords_table :: "gostring \<rightharpoonup> TokenType" where
  "keywords_table = map_of
     [(gostr ''pkg'', KW_PKG), (gostr ''imp'', KW_IMP), (gostr ''def'', KW_DEF), (gostr ''var'', KW_VAR),
      (gostr ''cons'', KW_CONS), (gostr ''type'', KW_TYPE), (gostr ''struct'', KW_STRUCT),
      (gostr ''interface'', KW_INTERFACE), (gostr ''mapping'', KW_MAPPING), (gostr ''channel'', KW_CHANNEL),
      (gostr ''j'', KW_J), (gostr ''select'', KW_SELECT), (gostr ''later'', KW_LATER), (gostr ''ret'', KW_RET),
      (gostr ''if'', KW_IF), (gostr ''else'', KW_ELSE), (gostr ''switch'', KW_SWITCH), (gostr ''case'', KW_CASE),
      (gostr ''fall'', KW_FALL), (gostr ''fr'', KW_FR), (gostr ''range'', KW_RANGE), (gostr ''break'', KW_BREAK),
      (gostr ''continue'', KW_CONTINUE), (gostr ''joto'', KW_JOTO), (gostr ''dft'', KW_DFT),
      (gostr ''panic'', KW_PANIC), (gostr ''recover'', KW_RECOVER), (gostr ''recovery'', KW_RECOVER)]"

definition typeNames :: "gostring set" where
  "typeNames = set (map gostr
     [''i8'', ''i16'', ''i32'', ''i64'', ''u8'', ''u16'', ''u32'', ''u64'', ''f32'', ''f64'', ''bool'', ''string''])"

section \<open>Trivia\<close>

text \<open>
  The line-comment loop \<^verbatim>\<open>for ch != '\n' && ch != 0 { ch = lx.advance() }\<close>.
\<close>

function lineComment_loop :: "rune \<Rightarrow> Lexer \<Rightarrow> Lexer" where
  "lineComment_loop ch lx =
     (if ch \<noteq> rn CHR 0x0A \<and> ch \<noteq> 0
      then (case advance lx of (ch', lx') \<Rightarrow> lineComment_loop ch' lx')
      else lx)"
  by pat_completeness auto
termination
  by (relation "measure (\<lambda>(ch, lx). 2 * (lx_length lx - lx_i lx) + (if ch \<noteq> rn CHR 0x0A \<and> ch \<noteq> 0 then 1 else 0))")
     (auto simp: advance_def lx_length_def Let_def split: if_splits)

declare lineComment_loop.simps [simp del]

text \<open>
  The loop \<^verbatim>\<open>for depth > 0\<close> of a block comment. The first component of the result
  tells whether the loop left \<^verbatim>\<open>skipWSAndComments\<close> by its \<^verbatim>\<open>return\<close>.
\<close>

function blockComment_loop :: "nat \<Rightarrow> nat \<Rightarrow> int \<Rightarrow> Lexer \<Rightarrow> bool \<times> Lexer" where
  "blockComment_loop startLine startCol depth lx =
     (if depth > 0 then
        (let c = peek_at lx 0 in
         if c = 0 then (True, errorAt startLine startCol (gostr ''unterminated block comment'') lx)
         else if c = rn CHR ''/'' \<and> peek_at lx 1 = rn CHR ''*''
           then blockComment_loop startLine startCol (depth + 1) (snd (advance (snd (advance lx))))
         else if c = rn CHR ''*'' \<and> peek_at lx 1 = rn CHR ''/''
           then blockComment_loop startLine startCol (depth - 1) (snd (advance (snd (advance lx))))
         else blockComment_loop startLine startCol depth (snd (advance lx)))
      else (False, lx))"
  by pat_completeness auto
termination
  by (relation "measure (\<lambda>(l, c, d, lx). lx_length lx - lx_i lx)")
     (auto simp: advance_def peek_at_def lx_length_def Let_def split: if_splits)

declare blockComment_loop.simps [simp del]

subsection \<open>Consuming code points: the vocabulary of the proofs\<close>

text \<open>
  \<open>consume k lx\<close> is the lexer \<open>lx\<close> after \<open>k\<close> code points have been consumed: the
  cursor is \<open>k\<close> further and the position has been updated once per code point, a newline
  starting a new line. It is not a function of the program; the lemmas below show that every
  loop and scanner of the program moves the lexer in this way.
\<close>

definition step_pos :: "nat \<times> nat \<Rightarrow> rune \<Rightarrow> nat \<times> nat" where
  "step_pos p r = (if r = rn CHR 0x0A then (fst p + 1, 1) else (fst p, snd p + 1))"

definition pos_after :: "nat \<times> nat \<Rightarrow> rune list \<Rightarrow> nat \<times> nat" where
  "pos_after p t = foldl step_pos p t"

definition consume :: "nat \<Rightarrow> Lexer \<Rightarrow> Lexer" where
  "consume k lx =
     (let p = pos_after (lx_line lx, lx_col lx) (take k (drop (lx_i lx) (lx_src lx)))
      in lx\<lparr>lx_i := lx_i lx + k, lx_line := fst p, lx_col := snd p\<rparr>)"

lemma consume_0 [simp]: "consume 0 lx = lx"
  by (simp add: consume_def pos_after_def)

lemma consume_sel [simp]:
  "lx_src (consume k lx) = lx_src lx"
  "lx_i (consume k lx) = lx_i lx + k"
  "lx_tokens (consume k lx) = lx_tokens lx"
  "lx_errors (consume k lx) = lx_errors lx"
  "lx_length (consume k lx) = lx_length lx"
  by (simp_all add: consume_def Let_def lx_length_def)

lemma consume_consume [simp]: "consume b (consume a lx) = consume (a + b) lx"
proof -
  have "take (a + b) (drop (lx_i lx) (lx_src lx)) =
        take a (drop (lx_i lx) (lx_src lx)) @ take b (drop (lx_i lx + a) (lx_src lx))"
    by (simp add: take_add add.commute)
  then show ?thesis
    by (simp add: consume_def Let_def pos_after_def add.assoc)
qed

lemma add_sel [simp]:
  "lx_src (add tt lexeme l c iv fv lx) = lx_src lx"
  "lx_i (add tt lexeme l c iv fv lx) = lx_i lx"
  "lx_line (add tt lexeme l c iv fv lx) = lx_line lx"
  "lx_col (add tt lexeme l c iv fv lx) = lx_col lx"
  "lx_errors (add tt lexeme l c iv fv lx) = lx_errors lx"
  "lx_length (add tt lexeme l c iv fv lx) = lx_length lx"
  by (simp_all add: add_def lx_length_def)

lemma errorAt_sel [simp]:
  "lx_src (errorAt l c msg lx) = lx_src lx"
  "lx_i (errorAt l c msg lx) = lx_i lx"
  "lx_line (errorAt l c msg lx) = lx_line lx"
  "lx_col (errorAt l c msg lx) = lx_col lx"
  "lx_tokens (errorAt l c msg lx) = lx_tokens lx"
  "lx_length (errorAt l c msg lx) = lx_length lx"
  by (simp_all add: errorAt_def lx_length_def)

lemma consume_add: "consume k (add tt lexeme l c iv fv lx) = add tt lexeme l c iv fv (consume k lx)"
  by (simp add: consume_def add_def Let_def)

lemma consume_errorAt: "consume k (errorAt l c msg lx) = errorAt l c msg (consume k lx)"
  by (simp add: consume_def errorAt_def Let_def)

lemma peek_at_peek_at_consume [simp]: "peek_at (consume k lx) n = peek_at lx (k + n)"
  by (simp add: peek_at_def add.assoc)

lemma peek_at_add [simp]: "peek_at (add tt lexeme l c iv fv lx) n = peek_at lx n"
  by (simp add: peek_at_def)

lemma peek_at_errorAt [simp]: "peek_at (errorAt l c msg lx) n = peek_at lx n"
  by (simp add: peek_at_def)

lemma peek_at_nonzero: "peek_at lx n \<noteq> 0 \<Longrightarrow> lx_i lx + n < lx_length lx"
  by (simp add: peek_at_def split: if_splits)

lemma peek_at_src: "lx_i lx + n < lx_length lx \<Longrightarrow> peek_at lx n = lx_src lx ! (lx_i lx + n)"
  by (simp add: peek_at_def)

lemma advance_in: "lx_i lx < lx_length lx \<Longrightarrow> advance lx = (lx_src lx ! lx_i lx, consume 1 lx)"
  by (simp add: advance_def consume_def pos_after_def step_pos_def Let_def lx_length_def
      take_Suc_conv_app_nth hd_drop_conv_nth)

lemma advance_peek: "peek_at lx 0 \<noteq> 0 \<Longrightarrow> advance lx = (peek_at lx 0, consume 1 lx)"
  using advance_in [of lx] peek_at_nonzero [of lx 0] by (simp add: peek_at_def)

lemma advance_end: "lx_length lx \<le> lx_i lx \<Longrightarrow> advance lx = (0, lx)"
  by (simp add: advance_def)

text \<open>\<open>moved lx lx'\<close>: \<open>lx'\<close> is \<open>lx\<close> after some code points of the buffer were consumed.\<close>

definition moved :: "Lexer \<Rightarrow> Lexer \<Rightarrow> bool" where
  "moved lx lx' \<longleftrightarrow> (\<exists>k. (k = 0 \<or> lx_i lx + k \<le> lx_length lx) \<and> lx' = consume k lx)"

lemma moved_refl [simp]: "moved lx lx"
  unfolding moved_def by (rule exI [of _ 0]) simp

lemma moved_trans: "moved a b \<Longrightarrow> moved b c \<Longrightarrow> moved a c"
  unfolding moved_def by (auto simp: add.assoc) 

lemma moved_advance: "moved lx (snd (advance lx))"
proof (cases "lx_i lx < lx_length lx")
  case True
  then show ?thesis unfolding moved_def by (intro exI [of _ 1]) (simp add: advance_in)
next
  case False
  then show ?thesis by (simp add: advance_end)
qed

lemma moved_D: "moved lx lx' \<Longrightarrow> lx_i lx \<le> lx_i lx' \<and> (lx_i lx \<le> lx_length lx \<longrightarrow> lx_i lx' \<le> lx_length lx) \<and> lx_length lx' = lx_length lx
    \<and> lx_src lx' = lx_src lx \<and> lx_tokens lx' = lx_tokens lx \<and> lx_errors lx' = lx_errors lx"
  unfolding moved_def by auto

lemma lineComment_loop_moved: "moved lx (lineComment_loop ch lx)"
proof (induction ch lx rule: lineComment_loop.induct)
  case (1 ch lx)
  show ?case
  proof (cases "ch \<noteq> rn CHR 0x0A \<and> ch \<noteq> 0")
    case True
    obtain ch' lx' where a: "advance lx = (ch', lx')" by (cases "advance lx")
    have "moved lx lx'" using moved_advance [of lx] a by simp
    moreover have "moved lx' (lineComment_loop ch' lx')" using 1 True a by simp
    ultimately show ?thesis
      using True a by (subst lineComment_loop.simps) (auto intro: moved_trans)
  next
    case False
    then show ?thesis by (subst lineComment_loop.simps) auto
  qed
qed

lemma lineComment_loop_progress:
  assumes "peek_at lx 0 \<noteq> 0" "ch \<noteq> rn CHR 0x0A" "ch \<noteq> 0"
  shows "lx_i lx < lx_i (lineComment_loop ch lx)"
proof -
  have "lineComment_loop ch lx = lineComment_loop (peek_at lx 0) (consume 1 lx)"
    using assms by (subst lineComment_loop.simps) (simp add: advance_peek)
  moreover have "lx_i (consume 1 lx) \<le> lx_i (lineComment_loop (peek_at lx 0) (consume 1 lx))"
    using lineComment_loop_moved moved_D by blast
  ultimately show ?thesis by simp
qed

text \<open>
  \<open>block_result l c lx r\<close>: the block-comment loop started at \<open>lx\<close> consumed some code
  points and either ended normally or recorded the unterminated comment at \<open>(l, c)\<close>,
  the cursor seeing the end value.
\<close>

definition block_result :: "nat \<Rightarrow> nat \<Rightarrow> Lexer \<Rightarrow> bool \<times> Lexer \<Rightarrow> bool" where
  "block_result l c lx r \<longleftrightarrow>
     (\<exists>lx'. moved lx lx' \<and>
        (r = (False, lx') \<or>
         (r = (True, errorAt l c (gostr ''unterminated block comment'') lx') \<and> peek_at lx' 0 = 0)))"

lemma block_result_step: "moved lx lx1 \<Longrightarrow> block_result l c lx1 r \<Longrightarrow> block_result l c lx r"
  unfolding block_result_def using moved_trans by blast

lemma blockComment_loop_moved: "block_result l c lx (blockComment_loop l c d lx)"
proof (induction l c d lx rule: blockComment_loop.induct)
  case (1 l c d lx)
  have two: "moved lx (snd (advance (snd (advance lx))))"
    using moved_advance moved_trans by blast
  show ?case
  proof (cases "d > 0")
    case False
    then have "blockComment_loop l c d lx = (False, lx)"
      by (subst blockComment_loop.simps) simp
    then show ?thesis unfolding block_result_def using moved_refl by blast
  next
    case d: True
    consider (eof) "peek_at lx 0 = 0"
      | (opn) "peek_at lx 0 \<noteq> 0" "peek_at lx 0 = rn CHR ''/'' \<and> peek_at lx 1 = rn CHR ''*''"
      | (cls) "peek_at lx 0 \<noteq> 0" "\<not> (peek_at lx 0 = rn CHR ''/'' \<and> peek_at lx 1 = rn CHR ''*'')"
              "peek_at lx 0 = rn CHR ''*'' \<and> peek_at lx 1 = rn CHR ''/''"
      | (oth) "peek_at lx 0 \<noteq> 0" "\<not> (peek_at lx 0 = rn CHR ''/'' \<and> peek_at lx 1 = rn CHR ''*'')"
              "\<not> (peek_at lx 0 = rn CHR ''*'' \<and> peek_at lx 1 = rn CHR ''/'')"
      by blast
    then show ?thesis
    proof cases
      case eof
      then have "blockComment_loop l c d lx = (True, errorAt l c (gostr ''unterminated block comment'') lx)"
        using d by (subst blockComment_loop.simps) (simp add: Let_def)
      then show ?thesis unfolding block_result_def using moved_refl eof by blast
    next
      case opn
      have eq: "blockComment_loop l c d lx = blockComment_loop l c (d + 1) (snd (advance (snd (advance lx))))"
        using d opn by (subst blockComment_loop.simps) (simp add: Let_def)
      have "block_result l c (snd (advance (snd (advance lx))))
              (blockComment_loop l c (d + 1) (snd (advance (snd (advance lx)))))"
        using "1.IH"(1) [OF d refl] opn by simp
      then show ?thesis unfolding eq using two block_result_step by blast
    next
      case cls
      have eq: "blockComment_loop l c d lx = blockComment_loop l c (d - 1) (snd (advance (snd (advance lx))))"
        using d cls by (subst blockComment_loop.simps) (simp add: Let_def)
      have "block_result l c (snd (advance (snd (advance lx))))
              (blockComment_loop l c (d - 1) (snd (advance (snd (advance lx)))))"
        using "1.IH"(2) [OF d refl] cls by simp
      then show ?thesis unfolding eq using two block_result_step by blast
    next
      case oth
      have eq: "blockComment_loop l c d lx = blockComment_loop l c d (snd (advance lx))"
        using d oth by (subst blockComment_loop.simps) (auto simp: Let_def)
      have "block_result l c (snd (advance lx)) (blockComment_loop l c d (snd (advance lx)))"
        using "1.IH"(3) [OF d refl] oth by simp
      then show ?thesis unfolding eq using moved_advance [of lx] block_result_step by blast
    qed
  qed
qed

lemma advance_dec:
  "peek_at lx 0 \<noteq> 0 \<Longrightarrow> (snd (advance lx), lx) \<in> measure (\<lambda>lx. lx_length lx - lx_i lx)"
  using peek_at_nonzero [of lx 0] by (simp add: advance_peek)

lemma moved_dec:
  "moved lx lx' \<Longrightarrow> lx_i lx < lx_i lx' \<Longrightarrow> lx_i lx < lx_length lx \<Longrightarrow>
   (lx', lx) \<in> measure (\<lambda>lx. lx_length lx - lx_i lx)"
  using moved_D [of lx lx'] by auto

lemma lineComment_dec:
  assumes "x = peek_at lx 0" "x = rn CHR ''/''"
  shows "(lineComment_loop x lx, lx) \<in> measure (\<lambda>lx. lx_length lx - lx_i lx)"
proof -
  have nz: "peek_at lx 0 \<noteq> 0" and ch: "x \<noteq> rn CHR 0x0A" "x \<noteq> 0" using assms by auto
  show ?thesis
    using lineComment_loop_moved lineComment_loop_progress [OF nz ch] peek_at_nonzero [OF nz]
    by (intro moved_dec) auto
qed

lemma blockComment_dec:
  assumes "x = peek_at lx 0" "x = rn CHR ''/''" "xa = peek_at lx 1" "xa = rn CHR ''*''"
    "xd = snd (advance (snd (advance lx)))" "(xe, y) = blockComment_loop xb xc d xd" "\<not> xe"
  shows "(y, lx) \<in> measure (\<lambda>lx. lx_length lx - lx_i lx)"
proof -
  have nz: "peek_at lx 0 \<noteq> 0" "peek_at lx 1 \<noteq> 0" using assms by auto
  have xd: "xd = consume 2 lx"
    using assms(5) nz by (simp add: advance_peek numeral_2_eq_2)
  have "moved xd y"
    using blockComment_loop_moved [of xb xc xd d] assms(6,7) unfolding block_result_def by auto
  moreover have "moved lx xd"
    unfolding moved_def xd using peek_at_nonzero [OF nz(2)] by (intro exI [of _ 2]) simp
  ultimately have "moved lx y" by (rule moved_trans [rotated])
  moreover have "lx_i lx < lx_i y"
    using \<open>moved xd y\<close> moved_D [of xd y] xd by simp
  ultimately show ?thesis
    using peek_at_nonzero [OF nz(1)] by (intro moved_dec) auto
qed

function skipWSAndComments :: "Lexer \<Rightarrow> Lexer" where
  "skipWSAndComments lx =
     (let ch = peek_at lx 0 in
      if ch = rn CHR '' '' \<or> ch = rn CHR 0x09 \<or> ch = rn CHR 0x0D \<or> ch = rn CHR 0x0A
        then skipWSAndComments (snd (advance lx))
      else if ch = rn CHR ''/'' then
        (let n = peek_at lx 1 in
         if n = rn CHR ''/'' then skipWSAndComments (lineComment_loop ch lx)
         else if n = rn CHR ''*'' then
           (let startLine = lx_line lx; startCol = lx_col lx;
                lx2 = snd (advance (snd (advance lx)))
            in case blockComment_loop startLine startCol 1 lx2 of
                 (returned, lx3) \<Rightarrow> if returned then lx3 else skipWSAndComments lx3)
         else lx)
      else lx)"
  by pat_completeness auto
termination
  apply (relation "measure (\<lambda>lx. lx_length lx - lx_i lx)")
     apply simp
    apply (rule advance_dec, force)
   apply (rule lineComment_dec; assumption)
  apply (rule blockComment_dec; assumption)
  done

declare skipWSAndComments.simps [simp del]

lemma rem_dec:
  "peek_at lx 0 \<noteq> 0 \<Longrightarrow>
   lx_length (snd (advance lx)) - lx_i (snd (advance lx)) < lx_length lx - lx_i lx"
  using peek_at_nonzero [of lx 0] by (simp add: advance_peek)

lemma rem_le:
  "lx_length (snd (advance lx)) - lx_i (snd (advance lx)) \<le> lx_length lx - lx_i lx"
  using moved_D [OF moved_advance, of lx] by auto

lemma rem_dec2:
  "peek_at lx 0 \<noteq> 0 \<Longrightarrow>
   lx_length (snd (advance (snd (advance lx)))) - lx_i (snd (advance (snd (advance lx))))
     < lx_length lx - lx_i lx"
  using rem_dec [of lx] rem_le [of "snd (advance lx)"] by linarith

lemma IsDigit_nonzero: "IsDigit U r \<Longrightarrow> r \<noteq> 0"
  by (auto simp: IsDigit_def)

lemma IsLetter_nonzero: "IsLetter U r \<Longrightarrow> r \<noteq> 0"
  by (auto simp: IsLetter_def)

lemma isIdentPart_nonzero: "isIdentPart U r \<Longrightarrow> r \<noteq> 0"
  by (auto simp: isIdentPart_def dest: IsDigit_nonzero IsLetter_nonzero)

section \<open>Scanners\<close>

subsection \<open>Identifiers, keywords, type names\<close>

function ident_loop :: "unicode_tables \<Rightarrow> gostring \<Rightarrow> Lexer \<Rightarrow> gostring \<times> Lexer" where
  "ident_loop U b lx =
     (if isIdentPart U (peek_at lx 0)
      then ident_loop U (b @ [fst (advance lx)]) (snd (advance lx))
      else (b, lx))"
  by pat_completeness auto
termination
  by (relation "measure (\<lambda>(U, b, lx). lx_length lx - lx_i lx)")
     (auto intro!: rem_dec dest: isIdentPart_nonzero)

declare ident_loop.simps [simp del]

definition scanIdentOrKeyword :: "unicode_tables \<Rightarrow> Lexer \<Rightarrow> Lexer" where
  "scanIdentOrKeyword U lx =
     (let l = lx_line lx; c = lx_col lx;
          (lexeme, lx1) = ident_loop U [] lx;
          low = ToLower U lexeme
      in case keywords_table low of
           Some t \<Rightarrow> add t lexeme l c None None lx1
         | None \<Rightarrow>
             if lexeme \<in> typeNames then add TYPE_NAME lexeme l c None None lx1
             else add IDENT lexeme l c None None lx1)"

subsection \<open>Numbers\<close>

text \<open>\<^verbatim>\<open>strings.Contains\<close> and \<^verbatim>\<open>strings.ContainsAny\<close>.\<close>

fun Contains :: "gostring \<Rightarrow> gostring \<Rightarrow> bool" where
  "Contains [] p = (p = [])"
| "Contains (x # xs) p = (prefix p (x # xs) \<or> Contains xs p)"

definition ContainsAny :: "gostring \<Rightarrow> gostring \<Rightarrow> bool" where
  "ContainsAny s chars = list_ex (\<lambda>r. r \<in> set chars) s"

definition bad :: "gostring list" where
  "bad = map gostr [''_.'', ''._'', ''e_'', ''_e'', ''E_'', ''_E'', ''x_'', ''_x'', ''X_'', ''_X'',
                    ''b_'', ''_b'', ''B_'', ''_B'', ''o_'', ''_o'', ''O_'', ''_O'']"

definition validUnderscores :: "gostring \<Rightarrow> bool" where
  "validUnderscores s =
     (if s = [] then False
      else if s ! 0 = rn CHR ''_'' \<or> s ! (length s - 1) = rn CHR ''_'' then False
      else if Contains s (gostr ''__'') then False
      else if list_ex (\<lambda>p. Contains s p) bad then False
      else True)"

text \<open>The condition of the digit loop of a prefixed literal, and the loop.\<close>

definition base_loop_cond :: "unicode_tables \<Rightarrow> rune \<Rightarrow> rune \<Rightarrow> bool" where
  "base_loop_cond U base ch \<longleftrightarrow>
     ch = rn CHR ''_'' \<or> IsDigit U ch
     \<or> (base = rn CHR ''x'' \<or> base = rn CHR ''X'')
         \<and> ((ch \<ge> rn CHR ''a'' \<and> ch \<le> rn CHR ''f'') \<or> (ch \<ge> rn CHR ''A'' \<and> ch \<le> rn CHR ''F''))
     \<or> (base = rn CHR ''b'' \<or> base = rn CHR ''B'') \<and> (ch = rn CHR ''0'' \<or> ch = rn CHR ''1'')
     \<or> (base = rn CHR ''o'' \<or> base = rn CHR ''O'') \<and> (ch \<ge> rn CHR ''0'' \<and> ch \<le> rn CHR ''7'')"

lemma base_loop_cond_nonzero: "base_loop_cond U base ch \<Longrightarrow> ch \<noteq> 0"
  by (auto simp: base_loop_cond_def dest: IsDigit_nonzero)

function base_loop :: "unicode_tables \<Rightarrow> rune \<Rightarrow> int \<Rightarrow> Lexer \<Rightarrow> int \<times> Lexer" where
  "base_loop U base count lx =
     (let ch = peek_at lx 0 in
      if base_loop_cond U base ch
      then base_loop U base (count + 1) (snd (advance lx))
      else (count, lx))"
  by pat_completeness auto
termination
  by (relation "measure (\<lambda>(U, base, count, lx). lx_length lx - lx_i lx)")
     (auto intro!: rem_dec dest: base_loop_cond_nonzero)

declare base_loop.simps [simp del]

text \<open>
  The loop \<^verbatim>\<open>for unicode.IsDigit(lx.peek(0)) || lx.peek(0) == '_' { lx.advance() }\<close>,
  which the decimal scanner runs for the integer part, the fraction and the exponent.
\<close>

function digits_loop :: "unicode_tables \<Rightarrow> Lexer \<Rightarrow> Lexer" where
  "digits_loop U lx =
     (if IsDigit U (peek_at lx 0) \<or> peek_at lx 0 = rn CHR ''_''
      then digits_loop U (snd (advance lx))
      else lx)"
  by pat_completeness auto
termination
  by (relation "measure (\<lambda>(U, lx). lx_length lx - lx_i lx)")
     (auto intro!: rem_dec dest: IsDigit_nonzero)

declare digits_loop.simps [simp del]

text \<open>The \<^verbatim>\<open>switch base\<close> that chooses the message of a malformed prefixed literal.\<close>

definition base_msg :: "rune \<Rightarrow> gostring" where
  "base_msg base =
     (if base = rn CHR ''x'' \<or> base = rn CHR ''X'' then gostr ''invalid hex literal''
      else if base = rn CHR ''b'' \<or> base = rn CHR ''B'' then gostr ''invalid binary literal''
      else if base = rn CHR ''o'' \<or> base = rn CHR ''O'' then gostr ''invalid octal literal''
      else gostr ''invalid numeric literal'')"

text \<open>The end of \<^verbatim>\<open>scanNumber\<close> for a decimal literal, from \<^verbatim>\<open>lex := string(lx.src[start:lx.i])\<close> on.\<close>

definition scanNumber_finish :: "bool \<Rightarrow> nat \<Rightarrow> nat \<Rightarrow> nat \<Rightarrow> Lexer \<Rightarrow> panic + Lexer" where
  "scanNumber_finish isFloat l c start lx =
     (case slice (lx_src lx) start (lx_i lx) of
        Inl p \<Rightarrow> Inl p
      | Inr lexeme \<Rightarrow>
          if \<not> validUnderscores lexeme
            then Inr (errorAt l c (gostr ''illegal underscore placement in number'') lx)
          else if isFloat \<or> ContainsAny lexeme (gostr ''.eE'')
            then Inr (add FLOAT_LIT lexeme l c None None lx)
          else Inr (add INT_LIT lexeme l c None None lx))"

definition scanNumber :: "unicode_tables \<Rightarrow> Lexer \<Rightarrow> panic + Lexer" where
  "scanNumber U lx =
     (let l = lx_line lx; c = lx_col lx; start = lx_i lx in
      if peek_at lx 0 = rn CHR ''0''
         \<and> (peek_at lx 1 = rn CHR ''x'' \<or> peek_at lx 1 = rn CHR ''X'' \<or> peek_at lx 1 = rn CHR ''b''
            \<or> peek_at lx 1 = rn CHR ''B'' \<or> peek_at lx 1 = rn CHR ''o'' \<or> peek_at lx 1 = rn CHR ''O'')
      then
        (let base = peek_at lx 1;
             lx2 = snd (advance (snd (advance lx)));
             (count, lx3) = base_loop U base 0 lx2
         in case slice (lx_src lx3) (start + 2) (lx_i lx3) of
              Inl p \<Rightarrow> Inl p
            | Inr body \<Rightarrow>
                if count = 0 \<or> \<not> validUnderscores body
                  then Inr (errorAt l c (base_msg base) lx3)
                else (case slice (lx_src lx3) start (lx_i lx3) of
                        Inl p \<Rightarrow> Inl p
                      | Inr lexeme \<Rightarrow> Inr (add INT_LIT lexeme l c None None lx3)))
      else
        (let lx1 = digits_loop U lx;
             isFloat = (peek_at lx1 0 = rn CHR ''.'' \<and> IsDigit U (peek_at lx1 1));
             lx2 = (if isFloat then digits_loop U (snd (advance lx1)) else lx1)
         in if peek_at lx2 0 = rn CHR ''e'' \<or> peek_at lx2 0 = rn CHR ''E'' then
              (let lx3 = snd (advance lx2);
                   lx4 = (if peek_at lx3 0 = rn CHR ''+'' \<or> peek_at lx3 0 = rn CHR ''-''
                          then snd (advance lx3) else lx3)
               in if \<not> IsDigit U (peek_at lx4 0)
                    then Inr (errorAt l c (gostr ''invalid float exponent'') lx4)
                  else scanNumber_finish True l c start (digits_loop U lx4))
            else scanNumber_finish isFloat l c start lx2))"

subsection \<open>Strings, raw strings, character literals\<close>

text \<open>
  A \<^verbatim>\<open>strings.Builder\<close> is the list of the runes written to it. \<^verbatim>\<open>Len\<close> counts
  the bytes of their UTF-8 encoding, and \<^verbatim>\<open>utf8.DecodeLastRuneInString\<close> gives back
  the rune written last (\<^verbatim>\<open>RuneError\<close> for the empty string).
\<close>

definition RuneLen :: "rune \<Rightarrow> nat" where
  "RuneLen r =
     (if r < 0 then 3 else if r < 0x80 then 1 else if r < 0x800 then 2
      else if 0xD800 \<le> r \<and> r \<le> 0xDFFF then 3 else if r < 0x10000 then 3
      else if r \<le> 0x10FFFF then 4 else 3)"

definition Builder_Len :: "gostring \<Rightarrow> nat" where
  "Builder_Len b = sum_list (map RuneLen b)"

definition DecodeLastRuneInString :: "gostring \<Rightarrow> rune" where
  "DecodeLastRuneInString b = (if b = [] then 0xFFFD else last b)"

text \<open>
  The loop of \<^verbatim>\<open>scanString\<close>. A \<^verbatim>\<open>return\<close> inside the loop ends the scanner
  with an error; a \<^verbatim>\<open>break\<close> leads to the \<^verbatim>\<open>lx.add\<close> after the loop. The call
  \<^verbatim>\<open>lx.peek(-1)\<close> is evaluated only when the decoded rune is the quote.
\<close>

function scanString_loop :: "nat \<Rightarrow> nat \<Rightarrow> gostring \<Rightarrow> Lexer \<Rightarrow> panic + Lexer" where
  "scanString_loop l c b lx =
     (let ch = peek_at lx 0 in
      if ch = 0 \<or> ch = rn CHR 0x0A
        then Inr (errorAt l c (gostr ''unterminated string literal'') lx)
      else if ch = rn CHR 0x5C then
        (let b1 = b @ [fst (advance lx)]; lx1 = snd (advance lx) in
         if peek_at lx1 0 = 0 \<or> peek_at lx1 0 = rn CHR 0x0A
           then Inr (errorAt l c (gostr ''unterminated string escape'') lx1)
         else scanString_loop l c (b1 @ [fst (advance lx1)]) (snd (advance lx1)))
      else
        (let b1 = b @ [fst (advance lx)]; lx1 = snd (advance lx) in
         case (if Builder_Len b1 \<ge> 2 \<and> DecodeLastRuneInString b1 = rn CHR 0x22
               then (case peek lx1 (- 1) of Inl p \<Rightarrow> Inl p | Inr r \<Rightarrow> Inr (r \<noteq> rn CHR 0x5C))
               else Inr False) of
           Inl p \<Rightarrow> Inl p
         | Inr closing \<Rightarrow>
             if closing then Inr (add STRING_LIT b1 l c None None lx1)
             else if peek_at lx1 0 = rn CHR 0x22
               then Inr (add STRING_LIT (b1 @ [fst (advance lx1)]) l c None None (snd (advance lx1)))
             else scanString_loop l c b1 lx1))"
  by pat_completeness auto
termination
  by (relation "measure (\<lambda>(l, c, b, lx). lx_length lx - lx_i lx)")
     (auto intro!: rem_dec rem_dec2)

declare scanString_loop.simps [simp del]

definition scanString :: "Lexer \<Rightarrow> panic + Lexer" where
  "scanString lx =
     (let l = lx_line lx; c = lx_col lx in
      scanString_loop l c [fst (advance lx)] (snd (advance lx)))"

function scanRawString_loop :: "nat \<Rightarrow> nat \<Rightarrow> gostring \<Rightarrow> Lexer \<Rightarrow> Lexer" where
  "scanRawString_loop l c b lx =
     (let ch = peek_at lx 0 in
      if ch = 0 then errorAt l c (gostr ''unterminated raw string'') lx
      else
        (let b1 = b @ [fst (advance lx)]; lx1 = snd (advance lx) in
         if ch = rn CHR 0x60 then add STRING_LIT b1 l c None None lx1
         else scanRawString_loop l c b1 lx1))"
  by pat_completeness auto
termination
  by (relation "measure (\<lambda>(l, c, b, lx). lx_length lx - lx_i lx)")
     (auto intro!: rem_dec)

declare scanRawString_loop.simps [simp del]

definition scanRawString :: "Lexer \<Rightarrow> Lexer" where
  "scanRawString lx =
     (let l = lx_line lx; c = lx_col lx in
      scanRawString_loop l c [fst (advance lx)] (snd (advance lx)))"

text \<open>The end of \<^verbatim>\<open>scanChar\<close>, from \<^verbatim>\<open>if lx.peek(0) != '\''\<close> on.\<close>

definition scanChar_close :: "nat \<Rightarrow> nat \<Rightarrow> gostring \<Rightarrow> Lexer \<Rightarrow> Lexer" where
  "scanChar_close l c b lx =
     (if peek_at lx 0 \<noteq> rn CHR 0x27 then errorAt l c (gostr ''unterminated char literal'') lx
      else add CHAR_LIT (b @ [fst (advance lx)]) l c None None (snd (advance lx)))"

definition scanChar :: "Lexer \<Rightarrow> Lexer" where
  "scanChar lx =
     (let l = lx_line lx; c = lx_col lx;
          b = [fst (advance lx)]; lx1 = snd (advance lx);
          ch = peek_at lx1 0
      in if ch = rn CHR 0x5C then
           (let b2 = b @ [fst (advance lx1)]; lx2 = snd (advance lx1) in
            if peek_at lx2 0 = 0 \<or> peek_at lx2 0 = rn CHR 0x0A
              then errorAt l c (gostr ''unterminated char escape'') lx2
            else scanChar_close l c (b2 @ [fst (advance lx2)]) (snd (advance lx2)))
         else if ch = 0 \<or> ch = rn CHR 0x0A \<or> ch = rn CHR 0x27
           then errorAt l c (gostr ''empty or invalid char literal'') lx1
         else scanChar_close l c (b @ [fst (advance lx1)]) (snd (advance lx1)))"

section \<open>The driver\<close>

text \<open>
  The \<^verbatim>\<open>switch ch\<close> of \<^verbatim>\<open>nextToken\<close>: punctuation and operators by longest match,
  and the \<^verbatim>\<open>default\<close> case for a code point that starts nothing.
\<close>

definition nextToken_switch :: "unicode_tables \<Rightarrow> rune \<Rightarrow> nat \<Rightarrow> nat \<Rightarrow> Lexer \<Rightarrow> Lexer" where
  "nextToken_switch U ch l c lx =
     (if ch = rn CHR ''('' then add LPAREN (gostr ''('') l c None None (snd (advance lx))
      else if ch = rn CHR '')'' then add RPAREN (gostr '')'') l c None None (snd (advance lx))
      else if ch = rn CHR ''{'' then add LBRACE (gostr ''{'') l c None None (snd (advance lx))
      else if ch = rn CHR ''}'' then add RBRACE (gostr ''}'') l c None None (snd (advance lx))
      else if ch = rn CHR ''['' then add LBRACK (gostr ''['') l c None None (snd (advance lx))
      else if ch = rn CHR '']'' then add RBRACK (gostr '']'') l c None None (snd (advance lx))
      else if ch = rn CHR '','' then add COMMA (gostr '','') l c None None (snd (advance lx))
      else if ch = rn CHR '';'' then add SEMI (gostr '';'') l c None None (snd (advance lx))
      else if ch = rn CHR '':'' then
        (if peek_at lx 1 = rn CHR ''='' then add DECL (gostr '':='') l c None None (snd (advance (snd (advance lx))))
         else add COLON (gostr '':'') l c None None (snd (advance lx)))
      else if ch = rn CHR ''.'' then add DOT (gostr ''.'') l c None None (snd (advance lx))
      else if ch = rn CHR ''+'' then
        (if peek_at lx 1 = rn CHR ''='' then add ADDEQ (gostr ''+='') l c None None (snd (advance (snd (advance lx))))
         else add PLUS (gostr ''+'') l c None None (snd (advance lx)))
      else if ch = rn CHR ''-'' then
        (if peek_at lx 1 = rn CHR ''='' then add SUBEQ (gostr ''-='') l c None None (snd (advance (snd (advance lx))))
         else add MINUS (gostr ''-'') l c None None (snd (advance lx)))
      else if ch = rn CHR ''*'' then
        (if peek_at lx 1 = rn CHR ''='' then add MULEQ (gostr ''*='') l c None None (snd (advance (snd (advance lx))))
         else add STAR (gostr ''*'') l c None None (snd (advance lx)))
      else if ch = rn CHR ''/'' then
        (if peek_at lx 1 = rn CHR ''='' then add DIVEQ (gostr ''/='') l c None None (snd (advance (snd (advance lx))))
         else add SLASH (gostr ''/'') l c None None (snd (advance lx)))
      else if ch = rn CHR ''%'' then
        (if peek_at lx 1 = rn CHR ''='' then add MODEQ (gostr ''%='') l c None None (snd (advance (snd (advance lx))))
         else add PERCENT (gostr ''%'') l c None None (snd (advance lx)))
      else if ch = rn CHR ''<'' then
        (if peek_at lx 1 = rn CHR ''-'' then add CH_SEND (gostr ''<-'') l c None None (snd (advance (snd (advance lx))))
         else if peek_at lx 1 = rn CHR ''='' then add LE (gostr ''<='') l c None None (snd (advance (snd (advance lx))))
         else if peek_at lx 1 = rn CHR ''<'' then
           (if peek_at lx 2 = rn CHR ''='' then add SHLEQ (gostr ''<<='') l c None None (snd (advance (snd (advance (snd (advance lx))))))
            else add SHL (gostr ''<<'') l c None None (snd (advance (snd (advance lx)))))
         else add LT (gostr ''<'') l c None None (snd (advance lx)))
      else if ch = rn CHR ''>'' then
        (if peek_at lx 1 = rn CHR ''='' then add GE (gostr ''>='') l c None None (snd (advance (snd (advance lx))))
         else if peek_at lx 1 = rn CHR ''>'' then
           (if peek_at lx 2 = rn CHR ''='' then add SHREQ (gostr ''>>='') l c None None (snd (advance (snd (advance (snd (advance lx))))))
            else add SHR (gostr ''>>'') l c None None (snd (advance (snd (advance lx)))))
         else add GT (gostr ''>'') l c None None (snd (advance lx)))
      else if ch = rn CHR ''='' then
        (if peek_at lx 1 = rn CHR ''='' then add EQ (gostr ''=='') l c None None (snd (advance (snd (advance lx))))
         else add ASSIGN (gostr ''='') l c None None (snd (advance lx)))
      else if ch = rn CHR ''!'' then
        (if peek_at lx 1 = rn CHR ''='' then add NE (gostr ''!='') l c None None (snd (advance (snd (advance lx))))
         else add BANG (gostr ''!'') l c None None (snd (advance lx)))
      else if ch = rn CHR ''&'' then
        (if peek_at lx 1 = rn CHR ''&'' then add ANDAND (gostr ''&&'') l c None None (snd (advance (snd (advance lx))))
         else if peek_at lx 1 = rn CHR ''='' then add ANDEQ (gostr ''&='') l c None None (snd (advance (snd (advance lx))))
         else add BAND (gostr ''&'') l c None None (snd (advance lx)))
      else if ch = rn CHR ''|'' then
        (if peek_at lx 1 = rn CHR ''|'' then add OROR (gostr ''||'') l c None None (snd (advance (snd (advance lx))))
         else if peek_at lx 1 = rn CHR ''='' then add OREQ (gostr ''|='') l c None None (snd (advance (snd (advance lx))))
         else add BOR (gostr ''|'') l c None None (snd (advance lx)))
      else if ch = rn CHR ''^'' then
        (if peek_at lx 1 = rn CHR ''='' then add XOREQ (gostr ''^='') l c None None (snd (advance (snd (advance lx))))
         else add BXOR (gostr ''^'') l c None None (snd (advance lx)))
      else snd (advance (errorAt l c (gostr ''invalid character '' @ Sprintf_q U ch) lx)))"

definition nextToken :: "unicode_tables \<Rightarrow> Lexer \<Rightarrow> panic + bool \<times> Lexer" where
  "nextToken U lx =
     (let lx0 = skipWSAndComments lx;
          ch = peek_at lx0 0
      in if ch = 0 then Inr (False, lx0)
         else
           (let l = lx_line lx0; c = lx_col lx0 in
            if isIdentStart U ch then Inr (True, scanIdentOrKeyword U lx0)
            else if IsDigit U ch then
              (case scanNumber U lx0 of Inl p \<Rightarrow> Inl p | Inr lx1 \<Rightarrow> Inr (True, lx1))
            else if ch = rn CHR 0x22 then
              (case scanString lx0 of Inl p \<Rightarrow> Inl p | Inr lx1 \<Rightarrow> Inr (True, lx1))
            else if ch = rn CHR 0x60 then Inr (True, scanRawString lx0)
            else if ch = rn CHR 0x27 then Inr (True, scanChar lx0)
            else Inr (True, nextToken_switch U ch l c lx0)))"

section \<open>What one scanning attempt does\<close>

text \<open>
  \<open>built b lx b' lx'\<close>: from \<open>lx\<close> to \<open>lx'\<close> some code points were consumed and
  appended to the builder \<open>b\<close>, giving \<open>b'\<close>.
\<close>

definition built :: "gostring \<Rightarrow> Lexer \<Rightarrow> gostring \<Rightarrow> Lexer \<Rightarrow> bool" where
  "built b lx b' lx' \<longleftrightarrow>
     (\<exists>k. (k = 0 \<or> lx_i lx + k \<le> lx_length lx) \<and> lx' = consume k lx
          \<and> b' = b @ take k (drop (lx_i lx) (lx_src lx)))"

lemma built_refl [simp]: "built b lx b lx"
  unfolding built_def by (rule exI [of _ 0]) simp

lemma built_moved: "built b lx b' lx' \<Longrightarrow> moved lx lx'"
  unfolding built_def moved_def by blast

lemma take_Suc_drop:
  "i < length xs \<Longrightarrow> take (Suc k) (drop i xs) = xs ! i # take k (drop (Suc i) xs)"
  by (simp add: Cons_nth_drop_Suc [symmetric])

lemma built_step:
  assumes nz: "peek_at lx 0 \<noteq> 0"
    and b: "built (b @ [fst (advance lx)]) (snd (advance lx)) b' lx'"
  shows "built b lx b' lx'"
proof -
  have i: "lx_i lx < lx_length lx" using peek_at_nonzero [OF nz] by simp
  have adv: "advance lx = (lx_src lx ! lx_i lx, consume 1 lx)" by (rule advance_in [OF i])
  from b obtain k where k: "k = 0 \<or> lx_i lx + 1 + k \<le> lx_length lx"
    "lx' = consume (1 + k) lx"
    "b' = b @ [lx_src lx ! lx_i lx] @ take k (drop (lx_i lx + 1) (lx_src lx))"
    unfolding built_def adv by auto
  have "b' = b @ take (Suc k) (drop (lx_i lx) (lx_src lx))"
    using k(3) i by (simp add: take_Suc_drop lx_length_def)
  moreover have "lx_i lx + Suc k \<le> lx_length lx" using k(1) i by auto
  ultimately show ?thesis unfolding built_def using k(2) by (intro exI [of _ "Suc k"]) simp
qed

lemma built_advance: "peek_at lx 0 \<noteq> 0 \<Longrightarrow> built b lx (b @ [fst (advance lx)]) (snd (advance lx))"
  by (rule built_step) simp_all

lemma built_advance2:
  "peek_at lx 0 \<noteq> 0 \<Longrightarrow> peek_at (snd (advance lx)) 0 \<noteq> 0 \<Longrightarrow>
   built b lx (b @ [fst (advance lx)] @ [fst (advance (snd (advance lx)))]) (snd (advance (snd (advance lx))))"
  using built_step [of lx b] built_step [of "snd (advance lx)" "b @ [fst (advance lx)]"] by simp

lemma advance_progress: "peek_at lx 0 \<noteq> 0 \<Longrightarrow> lx_i (snd (advance lx)) = lx_i lx + 1"
  by (simp add: advance_peek)

lemma advance_mono: "lx_i lx \<le> lx_i (snd (advance lx))"
  using moved_D [OF moved_advance] by blast

lemma ident_loop_built: "built b lx (fst (ident_loop U b lx)) (snd (ident_loop U b lx))"
proof (induction U b lx rule: ident_loop.induct)
  case (1 U b lx)
  show ?case
  proof (cases "isIdentPart U (peek_at lx 0)")
    case True
    then have "ident_loop U b lx = ident_loop U (b @ [fst (advance lx)]) (snd (advance lx))"
      by (subst ident_loop.simps) simp
    then show ?thesis
      using 1 True by (auto intro: built_step dest: isIdentPart_nonzero)
  next
    case False
    then show ?thesis by (subst (1 2) ident_loop.simps) simp
  qed
qed

lemma ident_loop_progress:
  "isIdentPart U (peek_at lx 0) \<Longrightarrow> lx_i lx < lx_i (snd (ident_loop U b lx))"
proof -
  assume a: "isIdentPart U (peek_at lx 0)"
  then have e: "ident_loop U b lx = ident_loop U (b @ [fst (advance lx)]) (snd (advance lx))"
    by (subst ident_loop.simps) simp
  have "lx_i (snd (advance lx)) \<le> lx_i (snd (ident_loop U (b @ [fst (advance lx)]) (snd (advance lx))))"
    using moved_D [OF built_moved [OF ident_loop_built]] by blast
  then show ?thesis
    unfolding e using advance_progress [of lx] a isIdentPart_nonzero by fastforce
qed

lemma digits_loop_moved: "moved lx (digits_loop U lx)"
proof (induction U lx rule: digits_loop.induct)
  case (1 U lx)
  show ?case
  proof (cases "IsDigit U (peek_at lx 0) \<or> peek_at lx 0 = rn CHR ''_''")
    case True
    then have "digits_loop U lx = digits_loop U (snd (advance lx))"
      by (subst digits_loop.simps) simp
    then show ?thesis using 1 True moved_advance [of lx] by (auto intro: moved_trans)
  next
    case False
    then show ?thesis by (subst digits_loop.simps) simp
  qed
qed

lemma digits_loop_progress:
  assumes "IsDigit U (peek_at lx 0)"
  shows "lx_i lx < lx_i (digits_loop U lx)"
proof -
  have e: "digits_loop U lx = digits_loop U (snd (advance lx))"
    using assms by (subst digits_loop.simps) simp
  have "lx_i (snd (advance lx)) \<le> lx_i (digits_loop U (snd (advance lx)))"
    using moved_D [OF digits_loop_moved] by blast
  then show ?thesis
    unfolding e using advance_progress [of lx] assms IsDigit_nonzero by fastforce
qed

lemma base_loop_moved: "moved lx (snd (base_loop U base count lx))"
proof (induction U base count lx rule: base_loop.induct)
  case (1 U base count lx)
  show ?case
  proof (cases "base_loop_cond U base (peek_at lx 0)")
    case True
    then have "base_loop U base count lx = base_loop U base (count + 1) (snd (advance lx))"
      by (subst base_loop.simps) (simp add: Let_def)
    moreover have "moved (snd (advance lx)) (snd (base_loop U base (count + 1) (snd (advance lx))))"
      using "1.IH" [OF refl] True by simp
    ultimately show ?thesis using moved_advance [of lx] by (auto intro: moved_trans)
  next
    case False
    then have "base_loop U base count lx = (count, lx)"
      by (subst base_loop.simps) (simp add: Let_def)
    then show ?thesis by simp
  qed
qed

text \<open>
  \<open>outcome l c b lx r\<close>: a scanner that started with builder \<open>b\<close> at \<open>lx\<close> ended in
  \<open>r\<close>, having consumed some code points and then appended either one token, whose lexeme
  is the builder with the consumed text, or one error, both at position \<open>(l, c)\<close>.
  \<open>attempt lx r\<close> is the outcome of a whole scanner started at \<open>lx\<close>: it began with an
  empty builder at the position of \<open>lx\<close> and consumed at least one code point.
\<close>

definition outcome :: "nat \<Rightarrow> nat \<Rightarrow> gostring \<Rightarrow> Lexer \<Rightarrow> Lexer \<Rightarrow> bool" where
  "outcome l c b lx r \<longleftrightarrow>
     (\<exists>b' lx'. built b lx b' lx' \<and>
        ((\<exists>tt. r = add tt b' l c None None lx') \<or> (\<exists>msg. r = errorAt l c msg lx')))"

definition attempt :: "Lexer \<Rightarrow> Lexer \<Rightarrow> bool" where
  "attempt lx r \<longleftrightarrow> lx_i lx < lx_i r \<and> outcome (lx_line lx) (lx_col lx) [] lx r"

lemma outcome_tok: "built b lx b' lx' \<Longrightarrow> outcome l c b lx (add tt b' l c None None lx')"
  unfolding outcome_def by blast

lemma outcome_err: "built b lx b' lx' \<Longrightarrow> outcome l c b lx (errorAt l c msg lx')"
  unfolding outcome_def by blast

lemma outcome_err_moved: "moved lx lx' \<Longrightarrow> outcome l c b lx (errorAt l c msg lx')"
  unfolding outcome_def built_def moved_def by blast

lemma outcome_step:
  "peek_at lx 0 \<noteq> 0 \<Longrightarrow> outcome l c (b @ [fst (advance lx)]) (snd (advance lx)) r \<Longrightarrow> outcome l c b lx r"
  unfolding outcome_def using built_step by blast

lemma outcome_i: "outcome l c b lx r \<Longrightarrow> lx_i lx \<le> lx_i r"
  unfolding outcome_def using moved_D [OF built_moved] by fastforce

lemma peek_back: "peek_at lx 0 \<noteq> 0 \<Longrightarrow> peek (snd (advance lx)) (- 1) = Inr (peek_at lx 0)"
  using peek_at_nonzero [of lx 0]
  by (simp add: advance_peek peek_def peek_at_def Let_def)

lemma scanString_loop_outcome:
  "\<exists>r. scanString_loop l c b lx = Inr r \<and> outcome l c b lx r"
proof (induction l c b lx rule: scanString_loop.induct)
  case (1 l c b lx)
  let ?lx1 = "snd (advance lx)" and ?b1 = "b @ [fst (advance lx)]"
  consider (stop) "peek_at lx 0 = 0 \<or> peek_at lx 0 = rn CHR 0x0A"
    | (esc) "\<not> (peek_at lx 0 = 0 \<or> peek_at lx 0 = rn CHR 0x0A)" "peek_at lx 0 = rn CHR 0x5C"
    | (plain) "\<not> (peek_at lx 0 = 0 \<or> peek_at lx 0 = rn CHR 0x0A)" "peek_at lx 0 \<noteq> rn CHR 0x5C"
    by blast
  then show ?case
  proof cases
    case stop
    then have "scanString_loop l c b lx = Inr (errorAt l c (gostr ''unterminated string literal'') lx)"
      by (subst scanString_loop.simps) (simp add: Let_def)
    then show ?thesis using outcome_err [OF built_refl] by simp
  next
    case esc
    then have nz: "peek_at lx 0 \<noteq> 0" by simp
    show ?thesis
    proof (cases "peek_at ?lx1 0 = 0 \<or> peek_at ?lx1 0 = rn CHR 0x0A")
      case True
      then have "scanString_loop l c b lx = Inr (errorAt l c (gostr ''unterminated string escape'') ?lx1)"
        using esc by (subst scanString_loop.simps) (simp add: Let_def)
      then show ?thesis using outcome_err [OF built_advance [OF nz]] by simp
    next
      case False
      then have nz1: "peek_at ?lx1 0 \<noteq> 0" by simp
      have e: "scanString_loop l c b lx = scanString_loop l c (?b1 @ [fst (advance ?lx1)]) (snd (advance ?lx1))"
        using esc False by (subst scanString_loop.simps) (simp add: Let_def)
      from "1.IH"(1) [OF refl esc(1,2) refl refl False]
      obtain r where r: "scanString_loop l c (?b1 @ [fst (advance ?lx1)]) (snd (advance ?lx1)) = Inr r"
        "outcome l c (?b1 @ [fst (advance ?lx1)]) (snd (advance ?lx1)) r" by blast
      have "outcome l c b lx r"
        using outcome_step [OF nz outcome_step [OF nz1 r(2)]] .
      then show ?thesis using e r(1) by simp
    qed
  next
    case plain
    then have nz: "peek_at lx 0 \<noteq> 0" by simp
    have pb: "peek ?lx1 (- 1) = Inr (peek_at lx 0)" by (rule peek_back [OF nz])
    have fst1: "fst (advance lx) = peek_at lx 0" using nz by (simp add: advance_peek)
    define closing where "closing \<longleftrightarrow> Builder_Len ?b1 \<ge> 2 \<and> DecodeLastRuneInString ?b1 = rn CHR 0x22"
    have cond: "(if Builder_Len ?b1 \<ge> 2 \<and> DecodeLastRuneInString ?b1 = rn CHR 0x22
               then (case peek ?lx1 (- 1) of Inl p \<Rightarrow> Inl p | Inr r \<Rightarrow> Inr (r \<noteq> rn CHR 0x5C))
               else Inr False) = Inr closing"
      using plain pb by (simp add: closing_def)
    show ?thesis
    proof (cases closing)
      case True
      then have "scanString_loop l c b lx = Inr (add STRING_LIT ?b1 l c None None ?lx1)"
        using plain cond by (subst scanString_loop.simps) (simp add: Let_def)
      then show ?thesis using outcome_tok [OF built_advance [OF nz]] by simp
    next
      case nc: False
      show ?thesis
      proof (cases "peek_at ?lx1 0 = rn CHR 0x22")
        case True
        then have nz1: "peek_at ?lx1 0 \<noteq> 0" by simp
        have "scanString_loop l c b lx =
              Inr (add STRING_LIT (?b1 @ [fst (advance ?lx1)]) l c None None (snd (advance ?lx1)))"
          using plain cond nc True by (subst scanString_loop.simps) (simp add: Let_def)
        moreover have "built b lx (?b1 @ [fst (advance ?lx1)]) (snd (advance ?lx1))"
          using built_advance2 [OF nz nz1] by simp
        ultimately show ?thesis using outcome_tok by simp
      next
        case False
        have e: "scanString_loop l c b lx = scanString_loop l c ?b1 ?lx1"
          using plain cond nc False by (subst scanString_loop.simps) (simp add: Let_def)
        have "\<exists>r. scanString_loop l c ?b1 ?lx1 = Inr r \<and> outcome l c ?b1 ?lx1 r"
          using "1.IH"(2) [OF refl plain(1,2) refl refl cond nc False] .
        then show ?thesis unfolding e using outcome_step [OF nz] by blast
      qed
    qed
  qed
qed

lemma scanRawString_loop_outcome: "outcome l c b lx (scanRawString_loop l c b lx)"
proof (induction l c b lx rule: scanRawString_loop.induct)
  case (1 l c b lx)
  let ?lx1 = "snd (advance lx)" and ?b1 = "b @ [fst (advance lx)]"
  consider (eof) "peek_at lx 0 = 0" | (close) "peek_at lx 0 \<noteq> 0" "peek_at lx 0 = rn CHR 0x60"
    | (go) "peek_at lx 0 \<noteq> 0" "peek_at lx 0 \<noteq> rn CHR 0x60" by blast
  then show ?case
  proof cases
    case eof
    then have "scanRawString_loop l c b lx = errorAt l c (gostr ''unterminated raw string'') lx"
      by (subst scanRawString_loop.simps) (simp add: Let_def)
    then show ?thesis using outcome_err [OF built_refl] by simp
  next
    case close
    then have "scanRawString_loop l c b lx = add STRING_LIT ?b1 l c None None ?lx1"
      by (subst scanRawString_loop.simps) (simp add: Let_def)
    then show ?thesis using outcome_tok [OF built_advance [OF close(1)]] by simp
  next
    case go
    then have "scanRawString_loop l c b lx = scanRawString_loop l c ?b1 ?lx1"
      by (subst scanRawString_loop.simps) (simp add: Let_def)
    moreover have "outcome l c ?b1 ?lx1 (scanRawString_loop l c ?b1 ?lx1)"
      using "1.IH" [OF refl go(1) refl refl go(2)] .
    ultimately show ?thesis using outcome_step [OF go(1)] by simp
  qed
qed

lemma attemptI:
  "peek_at lx 0 \<noteq> 0 \<Longrightarrow> outcome (lx_line lx) (lx_col lx) [fst (advance lx)] (snd (advance lx)) r \<Longrightarrow>
   attempt lx r"
  unfolding attempt_def
  using outcome_step [of lx "lx_line lx" "lx_col lx" "[]" r] outcome_i [of "lx_line lx" "lx_col lx" "[fst (advance lx)]" "snd (advance lx)" r]
    advance_progress [of lx]
  by simp

lemma scanString_attempt:
  "peek_at lx 0 \<noteq> 0 \<Longrightarrow> \<exists>r. scanString lx = Inr r \<and> attempt lx r"
  unfolding scanString_def Let_def
  using scanString_loop_outcome [of "lx_line lx" "lx_col lx" "[fst (advance lx)]" "snd (advance lx)"] attemptI
  by blast

lemma scanRawString_attempt: "peek_at lx 0 \<noteq> 0 \<Longrightarrow> attempt lx (scanRawString lx)"
  unfolding scanRawString_def Let_def
  using scanRawString_loop_outcome attemptI by blast

lemma scanChar_close_outcome: "outcome l c b lx (scanChar_close l c b lx)"
proof (cases "peek_at lx 0 = rn CHR 0x27")
  case True
  then have "peek_at lx 0 \<noteq> 0" by simp
  then show ?thesis
    using True outcome_tok [OF built_advance] by (simp add: scanChar_close_def)
next
  case False
  then show ?thesis using outcome_err [OF built_refl] by (simp add: scanChar_close_def)
qed

lemma scanChar_outcome:
  "outcome l c b lx
     (let ch = peek_at lx 0 in
      if ch = rn CHR 0x5C then
           (let b2 = b @ [fst (advance lx)]; lx2 = snd (advance lx) in
            if peek_at lx2 0 = 0 \<or> peek_at lx2 0 = rn CHR 0x0A
              then errorAt l c (gostr ''unterminated char escape'') lx2
            else scanChar_close l c (b2 @ [fst (advance lx2)]) (snd (advance lx2)))
         else if ch = 0 \<or> ch = rn CHR 0x0A \<or> ch = rn CHR 0x27
           then errorAt l c (gostr ''empty or invalid char literal'') lx
         else scanChar_close l c (b @ [fst (advance lx)]) (snd (advance lx)))"
proof -
  let ?lx2 = "snd (advance lx)"
  consider (esc_bad) "peek_at lx 0 = rn CHR 0x5C" "peek_at ?lx2 0 = 0 \<or> peek_at ?lx2 0 = rn CHR 0x0A"
    | (esc_ok) "peek_at lx 0 = rn CHR 0x5C" "\<not> (peek_at ?lx2 0 = 0 \<or> peek_at ?lx2 0 = rn CHR 0x0A)"
    | (bad) "peek_at lx 0 \<noteq> rn CHR 0x5C" "peek_at lx 0 = 0 \<or> peek_at lx 0 = rn CHR 0x0A \<or> peek_at lx 0 = rn CHR 0x27"
    | (ok) "peek_at lx 0 \<noteq> rn CHR 0x5C" "\<not> (peek_at lx 0 = 0 \<or> peek_at lx 0 = rn CHR 0x0A \<or> peek_at lx 0 = rn CHR 0x27)"
    by blast
  then show ?thesis
  proof cases
    case esc_bad
    then have "peek_at lx 0 \<noteq> 0" by simp
    then show ?thesis using esc_bad outcome_err [OF built_advance] by (simp add: Let_def)
  next
    case esc_ok
    then have nz: "peek_at lx 0 \<noteq> 0" "peek_at ?lx2 0 \<noteq> 0" by simp_all
    have "outcome l c (b @ [fst (advance lx)]) ?lx2
            (scanChar_close l c ((b @ [fst (advance lx)]) @ [fst (advance ?lx2)]) (snd (advance ?lx2)))"
      by (rule outcome_step [OF nz(2) scanChar_close_outcome])
    then show ?thesis using esc_ok outcome_step [OF nz(1)] by (simp add: Let_def)
  next
    case bad
    then show ?thesis using outcome_err [OF built_refl] by (simp add: Let_def)
  next
    case ok
    then have nz: "peek_at lx 0 \<noteq> 0" by simp
    show ?thesis using ok outcome_step [OF nz scanChar_close_outcome] by (simp add: Let_def)
  qed
qed

lemma scanChar_attempt: "peek_at lx 0 \<noteq> 0 \<Longrightarrow> attempt lx (scanChar lx)"
  using scanChar_outcome [of "lx_line lx" "lx_col lx" "[fst (advance lx)]" "snd (advance lx)"]
  by (intro attemptI) (simp_all add: scanChar_def Let_def)

lemma scanIdentOrKeyword_attempt:
  assumes "isIdentStart U (peek_at lx 0)"
  shows "attempt lx (scanIdentOrKeyword U lx)"
proof -
  obtain lexeme lx1 where il: "ident_loop U [] lx = (lexeme, lx1)" by (cases "ident_loop U [] lx")
  have part: "isIdentPart U (peek_at lx 0)"
    using assms by (auto simp: isIdentStart_def isIdentPart_def)
  have b: "built [] lx lexeme lx1" using ident_loop_built [of "[]" lx U] il by simp
  have i: "lx_i lx < lx_i lx1" using ident_loop_progress [OF part, of "[]"] il by simp
  have "\<exists>tt. scanIdentOrKeyword U lx = add tt lexeme (lx_line lx) (lx_col lx) None None lx1"
    by (auto simp: scanIdentOrKeyword_def il Let_def split: option.splits)
  then show ?thesis
    unfolding attempt_def using b i outcome_tok by fastforce
qed

lemma slice_moved:
  assumes "moved lx lx'" "lx_i lx < lx_i lx'"
  shows "\<exists>b'. slice (lx_src lx') (lx_i lx) (lx_i lx') = Inr b' \<and> built [] lx b' lx'"
proof -
  from assms obtain k where k: "lx_i lx + k \<le> lx_length lx" "lx' = consume k lx"
    unfolding moved_def by auto
  then show ?thesis
    unfolding built_def slice_def by (auto simp: lx_length_def)
qed

lemma slice_moved_body:
  assumes "moved lx lx'" "lx_i lx + 2 \<le> lx_i lx'"
  shows "\<exists>body. slice (lx_src lx') (lx_i lx + 2) (lx_i lx') = Inr body"
proof -
  from assms obtain k where k: "lx_i lx + k \<le> lx_length lx" "lx' = consume k lx"
    unfolding moved_def by auto
  then show ?thesis
    using assms(2) unfolding slice_def by (auto simp: lx_length_def)
qed

lemma scanNumber_finish_attempt:
  assumes "moved lx lxf" "lx_i lx < lx_i lxf"
  shows "\<exists>r. scanNumber_finish fl (lx_line lx) (lx_col lx) (lx_i lx) lxf = Inr r \<and> attempt lx r"
proof -
  from slice_moved [OF assms] obtain b' where
    b: "slice (lx_src lxf) (lx_i lx) (lx_i lxf) = Inr b'" "built [] lx b' lxf" by blast
  show ?thesis
    unfolding scanNumber_finish_def attempt_def b(1)
    using assms(2) outcome_tok [OF b(2)] outcome_err [OF b(2)] by simp
qed

lemma moved_advance2: "moved lx (snd (advance (snd (advance lx))))"
  using moved_advance moved_trans by blast

lemma scanNumber_attempt:
  assumes d: "IsDigit U (peek_at lx 0)"
  shows "\<exists>r. scanNumber U lx = Inr r \<and> attempt lx r"
proof (cases "peek_at lx 0 = rn CHR ''0''
         \<and> (peek_at lx 1 = rn CHR ''x'' \<or> peek_at lx 1 = rn CHR ''X'' \<or> peek_at lx 1 = rn CHR ''b''
            \<or> peek_at lx 1 = rn CHR ''B'' \<or> peek_at lx 1 = rn CHR ''o'' \<or> peek_at lx 1 = rn CHR ''O'')")
  case True
  let ?lx2 = "snd (advance (snd (advance lx)))"
  obtain count lx3 where bl: "base_loop U (peek_at lx 1) 0 ?lx2 = (count, lx3)"
    by (cases "base_loop U (peek_at lx 1) 0 ?lx2")
  have nz: "peek_at lx 0 \<noteq> 0" "peek_at lx 1 \<noteq> 0" using True by auto
  have lx2: "?lx2 = consume 2 lx" using nz by (simp add: advance_peek numeral_2_eq_2)
  have m23: "moved ?lx2 lx3" using base_loop_moved [of ?lx2 U "peek_at lx 1" 0] bl by simp
  have m: "moved lx lx3" using moved_trans [OF moved_advance2 m23] .
  have i: "lx_i lx + 2 \<le> lx_i lx3" using moved_D [OF m23] lx2 by simp
  then have i': "lx_i lx < lx_i lx3" by simp
  obtain body where body: "slice (lx_src lx3) (lx_i lx + 2) (lx_i lx3) = Inr body"
    using slice_moved_body [OF m i] by blast
  obtain b' where b: "slice (lx_src lx3) (lx_i lx) (lx_i lx3) = Inr b'" "built [] lx b' lx3"
    using slice_moved [OF m i'] by blast
  have "scanNumber U lx =
      (if count = 0 \<or> \<not> validUnderscores body
       then Inr (errorAt (lx_line lx) (lx_col lx) (base_msg (peek_at lx 1)) lx3)
       else Inr (add INT_LIT b' (lx_line lx) (lx_col lx) None None lx3))"
    using True bl body b(1) by (simp add: scanNumber_def Let_def)
  then show ?thesis
    unfolding attempt_def using i' outcome_tok [OF b(2)] outcome_err [OF b(2)] by simp
next
  case False
  let ?l = "lx_line lx" and ?c = "lx_col lx"
  define lx1 where "lx1 = digits_loop U lx"
  define isFloat where "isFloat \<longleftrightarrow> peek_at lx1 0 = rn CHR ''.'' \<and> IsDigit U (peek_at lx1 1)"
  define lx2 where "lx2 = (if isFloat then digits_loop U (snd (advance lx1)) else lx1)"
  define lx3 where "lx3 = snd (advance lx2)"
  define lx4 where "lx4 = (if peek_at lx3 0 = rn CHR ''+'' \<or> peek_at lx3 0 = rn CHR ''-''
                          then snd (advance lx3) else lx3)"
  have m1: "moved lx lx1" unfolding lx1_def by (rule digits_loop_moved)
  have i1: "lx_i lx < lx_i lx1" unfolding lx1_def by (rule digits_loop_progress [OF d])
  have m12: "moved lx1 lx2"
    unfolding lx2_def using moved_trans [OF moved_advance digits_loop_moved] by simp
  have m23: "moved lx2 lx3" unfolding lx3_def by (rule moved_advance)
  have m34: "moved lx3 lx4" unfolding lx4_def using moved_advance by simp
  have m45: "moved lx4 (digits_loop U lx4)" by (rule digits_loop_moved)
  have m2: "moved lx lx2" using m1 m12 by (rule moved_trans)
  have m4: "moved lx lx4" using moved_trans [OF m2 moved_trans [OF m23 m34]] .
  have m5: "moved lx (digits_loop U lx4)" using m4 m45 by (rule moved_trans)
  have i2: "lx_i lx < lx_i lx2" using i1 moved_D [OF m12] by simp
  have i4: "lx_i lx < lx_i lx4" using i2 moved_D [OF m23] moved_D [OF m34] by simp
  have i5: "lx_i lx < lx_i (digits_loop U lx4)" using i4 moved_D [OF m45] by simp
  have e: "scanNumber U lx =
      (if peek_at lx2 0 = rn CHR ''e'' \<or> peek_at lx2 0 = rn CHR ''E'' then
         (if \<not> IsDigit U (peek_at lx4 0)
            then Inr (errorAt ?l ?c (gostr ''invalid float exponent'') lx4)
          else scanNumber_finish True ?l ?c (lx_i lx) (digits_loop U lx4))
       else scanNumber_finish isFloat ?l ?c (lx_i lx) lx2)"
    unfolding scanNumber_def Let_def lx1_def isFloat_def lx2_def lx3_def lx4_def
    by (simp only: False if_False)
  show ?thesis
    unfolding e attempt_def
    using scanNumber_finish_attempt [OF m5 i5, of True] scanNumber_finish_attempt [OF m2 i2, of isFloat]
      outcome_err_moved [OF m4] i4
    by (auto simp: attempt_def)
qed

lemma tok1:
  assumes "peek_at lx 0 = a" "a \<noteq> 0"
  shows "attempt lx (add tt [a] (lx_line lx) (lx_col lx) None None (snd (advance lx)))"
proof -
  have nz: "peek_at lx 0 \<noteq> 0" using assms by simp
  have "fst (advance lx) = a" using nz assms by (simp add: advance_peek)
  then show ?thesis
    using outcome_tok [OF built_refl, of "lx_line lx" "lx_col lx" "[a]" "snd (advance lx)" tt]
    by (intro attemptI [OF nz]) simp
qed

lemma tok2:
  assumes "peek_at lx 0 = a" "a \<noteq> 0" "peek_at lx (Suc 0) = b" "b \<noteq> 0"
  shows "attempt lx (add tt [a, b] (lx_line lx) (lx_col lx) None None (snd (advance (snd (advance lx)))))"
proof -
  have nz: "peek_at lx 0 \<noteq> 0" using assms by simp
  have a: "advance lx = (a, consume 1 lx)" using nz assms by (simp add: advance_peek)
  have nz1: "peek_at (snd (advance lx)) 0 \<noteq> 0" using assms a by simp
  have b: "fst (advance (snd (advance lx))) = b" using nz1 assms a by (simp add: advance_peek)
  have "outcome (lx_line lx) (lx_col lx) [a] (snd (advance lx))
          (add tt ([a] @ [b]) (lx_line lx) (lx_col lx) None None (snd (advance (snd (advance lx)))))"
    using outcome_tok [OF built_advance [OF nz1], of "lx_line lx" "lx_col lx" "[a]" tt] b by simp
  then show ?thesis using a by (intro attemptI [OF nz]) simp
qed

lemma tok3:
  assumes "peek_at lx 0 = a" "a \<noteq> 0" "peek_at lx (Suc 0) = b" "b \<noteq> 0" "peek_at lx 2 = d" "d \<noteq> 0"
  shows "attempt lx (add tt [a, b, d] (lx_line lx) (lx_col lx) None None
            (snd (advance (snd (advance (snd (advance lx)))))))"
proof -
  have nz: "peek_at lx 0 \<noteq> 0" using assms by simp
  have a: "advance lx = (a, consume 1 lx)" using nz assms by (simp add: advance_peek)
  have nz1: "peek_at (consume 1 lx) 0 \<noteq> 0" using assms by simp
  have b: "advance (consume 1 lx) = (b, consume 2 lx)"
    using nz1 assms by (simp add: advance_peek numeral_2_eq_2)
  have nz2: "peek_at (consume 2 lx) 0 \<noteq> 0" using assms by simp
  have d: "fst (advance (consume 2 lx)) = d" using nz2 assms by (simp add: advance_peek)
  have "outcome (lx_line lx) (lx_col lx) ([a] @ [b]) (consume 2 lx)
          (add tt (([a] @ [b]) @ [d]) (lx_line lx) (lx_col lx) None None (snd (advance (consume 2 lx))))"
    using outcome_tok [OF built_advance [OF nz2], of "lx_line lx" "lx_col lx" "[a] @ [b]" tt] d by simp
  then have "outcome (lx_line lx) (lx_col lx) [a] (consume 1 lx)
          (add tt [a, b, d] (lx_line lx) (lx_col lx) None None (snd (advance (consume 2 lx))))"
    using outcome_step [OF nz1, of "lx_line lx" "lx_col lx" "[a]"] b by simp
  then show ?thesis using a b by (intro attemptI [OF nz]) simp
qed

lemma err1:
  assumes "peek_at lx 0 \<noteq> 0"
  shows "attempt lx (snd (advance (errorAt (lx_line lx) (lx_col lx) msg lx)))"
proof -
  have "snd (advance (errorAt (lx_line lx) (lx_col lx) msg lx)) =
        errorAt (lx_line lx) (lx_col lx) msg (snd (advance lx))"
    using assms by (simp add: advance_peek consume_errorAt)
  then show ?thesis
    using outcome_err [OF built_refl, of "lx_line lx" "lx_col lx" "[fst (advance lx)]" "snd (advance lx)"]
    by (simp add: attemptI [OF assms])
qed

lemma nextToken_switch_attempt:
  assumes "ch = peek_at lx 0" "ch \<noteq> 0"
  shows "attempt lx (nextToken_switch U ch (lx_line lx) (lx_col lx) lx)"
  using assms unfolding nextToken_switch_def gostr_def
  by (auto intro!: tok1 tok2 tok3 err1)

section \<open>What one step of the driver does\<close>

text \<open>
  \<open>trivia lx r\<close>: \<open>r\<close> is \<open>lx\<close> after some code points were consumed, with at most one
  error appended; the error is the unterminated block comment, positioned where a
  state \<open>lx0\<close> on the way stood, at least two code points before the end, and then the
  cursor of \<open>r\<close> sees the end value.
\<close>

definition trivia :: "Lexer \<Rightarrow> Lexer \<Rightarrow> bool" where
  "trivia lx r \<longleftrightarrow>
     (\<exists>lx'. moved lx lx' \<and>
        (r = lx' \<or>
         (\<exists>lx0. moved lx lx0 \<and> moved lx0 lx' \<and> lx_i lx0 + 2 \<le> lx_i lx' \<and> peek_at lx' 0 = 0 \<and>
            r = errorAt (lx_line lx0) (lx_col lx0) (gostr ''unterminated block comment'') lx')))"

lemma trivia_refl [simp]: "trivia lx lx"
  unfolding trivia_def using moved_refl by blast

lemma trivia_step: "moved lx lx1 \<Longrightarrow> trivia lx1 r \<Longrightarrow> trivia lx r"
  unfolding trivia_def using moved_trans by blast

lemma skipWSAndComments_trivia: "trivia lx (skipWSAndComments lx)"
proof (induction lx rule: skipWSAndComments.induct)
  case (1 lx)
  let ?ch = "peek_at lx 0"
  let ?ws = "?ch = rn CHR '' '' \<or> ?ch = rn CHR 0x09 \<or> ?ch = rn CHR 0x0D \<or> ?ch = rn CHR 0x0A"
  let ?lx2 = "snd (advance (snd (advance lx)))"
  consider (ws) ?ws
    | (line) "\<not> ?ws" "?ch = rn CHR ''/''" "peek_at lx 1 = rn CHR ''/''"
    | (block) "\<not> ?ws" "?ch = rn CHR ''/''" "peek_at lx 1 \<noteq> rn CHR ''/''" "peek_at lx 1 = rn CHR ''*''"
    | (none) "\<not> ?ws" "?ch = rn CHR ''/'' \<longrightarrow> peek_at lx 1 \<noteq> rn CHR ''/'' \<and> peek_at lx 1 \<noteq> rn CHR ''*''"
    by blast
  then show ?case
  proof cases
    case ws
    then have e: "skipWSAndComments lx = skipWSAndComments (snd (advance lx))"
      by (subst skipWSAndComments.simps) (simp add: Let_def)
    have "trivia (snd (advance lx)) (skipWSAndComments (snd (advance lx)))"
      using "1.IH"(1) [OF refl ws] .
    then show ?thesis unfolding e using trivia_step [OF moved_advance] by blast
  next
    case line
    then have e: "skipWSAndComments lx = skipWSAndComments (lineComment_loop ?ch lx)"
      by (subst skipWSAndComments.simps) (simp add: Let_def)
    have "trivia (lineComment_loop ?ch lx) (skipWSAndComments (lineComment_loop ?ch lx))"
      using "1.IH"(2) [OF refl line(1,2) refl line(3)] .
    then show ?thesis unfolding e using trivia_step [OF lineComment_loop_moved] by blast
  next
    case block
    obtain returned lx3 where bl: "blockComment_loop (lx_line lx) (lx_col lx) 1 ?lx2 = (returned, lx3)"
      by (cases "blockComment_loop (lx_line lx) (lx_col lx) 1 ?lx2")
    have e: "skipWSAndComments lx = (if returned then lx3 else skipWSAndComments lx3)"
      using block bl by (subst skipWSAndComments.simps) (simp add: Let_def)
    have nz: "peek_at lx 0 \<noteq> 0" "peek_at lx 1 \<noteq> 0" using block by auto
    have lx2: "?lx2 = consume 2 lx" using nz by (simp add: advance_peek numeral_2_eq_2)
    show ?thesis
    proof (cases returned)
      case True
      obtain lx' where lx': "moved ?lx2 lx'"
        "lx3 = errorAt (lx_line lx) (lx_col lx) (gostr ''unterminated block comment'') lx'"
        "peek_at lx' 0 = 0"
        using blockComment_loop_moved [of "lx_line lx" "lx_col lx" ?lx2 1] bl True
        unfolding block_result_def by auto
      have m: "moved lx lx'" using moved_trans [OF moved_advance2 lx'(1)] .
      have i: "lx_i lx + 2 \<le> lx_i lx'" using moved_D [OF lx'(1)] lx2 by simp
      have "trivia lx lx3"
        unfolding trivia_def using m i lx'(2,3) moved_refl [of lx] by blast
      then show ?thesis unfolding e using True by simp
    next
      case False
      have m: "moved ?lx2 lx3"
        using blockComment_loop_moved [of "lx_line lx" "lx_col lx" ?lx2 1] bl False
        unfolding block_result_def by auto
      have "trivia lx3 (skipWSAndComments lx3)"
        using "1.IH"(3) [OF refl block(1,2) refl block(3,4) refl refl refl bl [symmetric] False] .
      then show ?thesis
        unfolding e using False trivia_step [OF moved_trans [OF moved_advance2 m]] by simp
    qed
  next
    case none
    then have "skipWSAndComments lx = lx"
      by (subst skipWSAndComments.simps) (auto simp: Let_def)
    then show ?thesis by simp
  qed
qed

lemma nextToken_step:
  "(peek_at (skipWSAndComments lx) 0 = 0 \<and> nextToken U lx = Inr (False, skipWSAndComments lx)) \<or>
   (peek_at (skipWSAndComments lx) 0 \<noteq> 0 \<and>
      (\<exists>r. nextToken U lx = Inr (True, r) \<and> attempt (skipWSAndComments lx) r))"
proof (cases "peek_at (skipWSAndComments lx) 0 = 0")
  case True
  then show ?thesis by (simp add: nextToken_def Let_def)
next
  case False
  let ?lx0 = "skipWSAndComments lx"
  let ?ch = "peek_at ?lx0 0"
  consider (ident) "isIdentStart U ?ch"
    | (num) "\<not> isIdentStart U ?ch" "IsDigit U ?ch"
    | (str) "\<not> isIdentStart U ?ch" "\<not> IsDigit U ?ch" "?ch = rn CHR 0x22"
    | (raw) "\<not> isIdentStart U ?ch" "\<not> IsDigit U ?ch" "?ch \<noteq> rn CHR 0x22" "?ch = rn CHR 0x60"
    | (chr) "\<not> isIdentStart U ?ch" "\<not> IsDigit U ?ch" "?ch \<noteq> rn CHR 0x22" "?ch \<noteq> rn CHR 0x60" "?ch = rn CHR 0x27"
    | (sym) "\<not> isIdentStart U ?ch" "\<not> IsDigit U ?ch" "?ch \<noteq> rn CHR 0x22" "?ch \<noteq> rn CHR 0x60" "?ch \<noteq> rn CHR 0x27"
    by blast
  then have "\<exists>r. nextToken U lx = Inr (True, r) \<and> attempt ?lx0 r"
  proof cases
    case ident
    then show ?thesis
      using False scanIdentOrKeyword_attempt [OF ident] by (simp add: nextToken_def Let_def)
  next
    case num
    then show ?thesis
      using False scanNumber_attempt [OF num(2)] by (auto simp: nextToken_def Let_def)
  next
    case str
    then show ?thesis
      using False scanString_attempt [OF False] by (auto simp: nextToken_def Let_def)
  next
    case raw
    then show ?thesis
      using False scanRawString_attempt [OF False] by (simp add: nextToken_def Let_def)
  next
    case chr
    then show ?thesis
      using False scanChar_attempt [OF False] by (simp add: nextToken_def Let_def)
  next
    case sym
    then show ?thesis
      using False nextToken_switch_attempt [OF refl False, of U] by (simp add: nextToken_def Let_def)
  qed
  then show ?thesis using False by simp
qed

lemma built_D:
  "built b lx b' lx' \<Longrightarrow> lx_i lx < lx_i lx' \<Longrightarrow> lx_i lx' \<le> lx_length lx"
  unfolding built_def by auto

lemma attempt_D:
  assumes "attempt lx r"
  shows "lx_i lx < lx_i r" "lx_i r \<le> lx_length lx" "lx_length r = lx_length lx" "lx_src r = lx_src lx"
proof -
  from assms obtain b' lx' where a: "lx_i lx < lx_i r" "built [] lx b' lx'"
    "(\<exists>tt. r = add tt b' (lx_line lx) (lx_col lx) None None lx') \<or>
     (\<exists>msg. r = errorAt (lx_line lx) (lx_col lx) msg lx')"
    unfolding attempt_def outcome_def by blast
  have i: "lx_i r = lx_i lx'" using a(3) by auto
  show "lx_i lx < lx_i r" by (rule a(1))
  show "lx_i r \<le> lx_length lx" using built_D [OF a(2)] a(1) i by simp
  show "lx_length r = lx_length lx" using a(3) moved_D [OF built_moved [OF a(2)]] by auto
  show "lx_src r = lx_src lx" using a(3) moved_D [OF built_moved [OF a(2)]] by auto
qed

lemma trivia_D:
  assumes "trivia lx r"
  shows "lx_i lx \<le> lx_i r" "lx_length r = lx_length lx" "lx_src r = lx_src lx"
    "lx_tokens r = lx_tokens lx"
  using assms moved_D unfolding trivia_def by fastforce+

lemma nextToken_dec:
  assumes "nextToken U lx = Inr r" "fst r"
  shows "(snd r, lx) \<in> measure (\<lambda>lx. lx_length lx - lx_i lx)"
proof -
  let ?lx0 = "skipWSAndComments lx"
  from nextToken_step [of lx U] assms have a: "attempt ?lx0 (snd r)" by auto
  show ?thesis
    using attempt_D [OF a] trivia_D [OF skipWSAndComments_trivia [of lx]] by simp
qed

text \<open>\<^verbatim>\<open>LexAll\<close>: the loop \<^verbatim>\<open>for lx.nextToken() { }\<close> and the two lists it returns.\<close>

function LexAll_loop :: "unicode_tables \<Rightarrow> Lexer \<Rightarrow> panic + Lexer" where
  "LexAll_loop U lx =
     (case nextToken U lx of
        Inl p \<Rightarrow> Inl p
      | Inr r \<Rightarrow> if fst r then LexAll_loop U (snd r) else Inr (snd r))"
  by pat_completeness auto
termination
  by (relation "measure (\<lambda>(U, lx). lx_length lx - lx_i lx)")
     (use nextToken_dec in auto)

declare LexAll_loop.simps [simp del]

definition LexAll :: "unicode_tables \<Rightarrow> Lexer \<Rightarrow> panic + Token list \<times> gostring list" where
  "LexAll U lx =
     (case LexAll_loop U lx of
        Inl p \<Rightarrow> Inl p
      | Inr lx' \<Rightarrow> Inr (lx_tokens lx', lx_errors lx'))"

lemma LexAll_loop_total: "\<exists>r. LexAll_loop U lx = Inr r"
proof (induction U lx rule: LexAll_loop.induct)
  case (1 U lx)
  from nextToken_step [of lx U] obtain b r where n: "nextToken U lx = Inr (b, r)" by auto
  show ?case
  proof (cases b)
    case True
    then show ?thesis using n "1.IH" [OF n] by (subst LexAll_loop.simps) simp
  next
    case False
    then show ?thesis using n by (subst LexAll_loop.simps) simp
  qed
qed

lemma trivia_same: "trivia lx r \<Longrightarrow> lx_i r = lx_i lx \<Longrightarrow> r = lx"
  unfolding trivia_def moved_def using moved_D by fastforce

section \<open>The claims\<close>

subsection \<open>C2: progress of the driver and termination\<close>

text \<open>
  C2. \<^verbatim>\<open>LexAll\<close> returns on every input, and \<^verbatim>\<open>nextToken\<close> moves the cursor strictly
  forward whenever it returns true and whenever the code point under the cursor is not
  the end value 0 when it is called. When it returns false the cursor sees the end value:
  the end of the buffer or a code point U+0000. This is the claim with "not at end of
  input" read as "the next code point is not the end value"; as stated (cursor index
  below the length) it fails on an input that starts with U+0000.
\<close>

theorem nextToken_progress:
  "\<exists>more r. nextToken U lx = Inr (more, r)
      \<and> lx_src r = lx_src lx \<and> lx_i lx \<le> lx_i r
      \<and> (more \<longrightarrow> lx_i lx < lx_i r)
      \<and> (peek_at lx 0 \<noteq> 0 \<longrightarrow> lx_i lx < lx_i r)
      \<and> (\<not> more \<longrightarrow> peek_at r 0 = 0)
      \<and> (\<exists>res. LexAll U lx = Inr res)"
proof -
  let ?lx0 = "skipWSAndComments lx"
  have t: "trivia lx ?lx0" by (rule skipWSAndComments_trivia)
  note tD = trivia_D [OF t]
  have tot: "\<exists>res. LexAll U lx = Inr res"
    using LexAll_loop_total [of U lx] by (auto simp: LexAll_def)
  from nextToken_step [of lx U] show ?thesis
  proof
    assume a: "peek_at ?lx0 0 = 0 \<and> nextToken U lx = Inr (False, ?lx0)"
    have "peek_at lx 0 \<noteq> 0 \<longrightarrow> lx_i lx < lx_i ?lx0"
      using trivia_same [OF t] a tD(1) by (cases "lx_i ?lx0 = lx_i lx") auto
    then show ?thesis using a tD tot by auto
  next
    assume "peek_at ?lx0 0 \<noteq> 0 \<and> (\<exists>r. nextToken U lx = Inr (True, r) \<and> attempt ?lx0 r)"
    then obtain r where r: "nextToken U lx = Inr (True, r)" "attempt ?lx0 r" by blast
    show ?thesis using r(1) attempt_D [OF r(2)] tD tot by auto
  qed
qed

theorem nextToken_progress_witness:
  "peek_at (NewLexer (gostr ''@ x'')) 0 \<noteq> 0 \<and>
   (\<exists>more r. nextToken no_tables (NewLexer (gostr ''@ x'')) = Inr (more, r) \<and> 0 < lx_i r)"
proof -
  have "peek_at (NewLexer (gostr ''@ x'')) 0 \<noteq> 0" by code_simp
  moreover have "lx_i (NewLexer (gostr ''@ x'')) = 0" by code_simp
  ultimately show ?thesis
    using nextToken_progress [of no_tables "NewLexer (gostr ''@ x'')"] by auto
qed

text \<open>
  The claim as stated fails: on the input U+0000, \<open>x\<close> the cursor is at index 0, not at
  the end of the input, and \<^verbatim>\<open>nextToken\<close> returns with the cursor still at index 0.
\<close>

theorem nextToken_stalls_at_NUL:
  "lx_i (NewLexer [0, rn CHR ''x'']) < lx_length (NewLexer [0, rn CHR ''x'']) \<and>
   nextToken no_tables (NewLexer [0, rn CHR ''x'']) = Inr (False, NewLexer [0, rn CHR ''x''])"
  by code_simp

subsection \<open>C3: look-behind before the start of the buffer\<close>




subsection \<open>C4: a prefixed literal followed by a digit that is not of its base\<close>

text \<open>
  C4. A base prefix followed by no digit valid for the base is claimed to give one error
  and no token. The digit loop accepts every \<^verbatim>\<open>unicode.IsDigit\<close> code point whatever
  the base, so \<^verbatim>\<open>0b2\<close> becomes an integer token and no error is recorded.
\<close>

theorem binary_literal_with_digit_2_is_a_token:
  "LexAll U (NewLexer (gostr ''0b2'')) =
     Inr ([\<lparr>Type = INT_LIT, Lexeme = gostr ''0b2'', Line = 1, Column = 1, IntVal = None, FloatVal = None\<rparr>], [])"
  by code_simp

subsection \<open>C8: the input \<^verbatim>\<open>@\<close>\<close>

text \<open>
  C8. On the input \<^verbatim>\<open>@\<close> one run returns no token and exactly one error, at line 1
  column 1, and ends normally. The message renders the code point as \<^verbatim>\<open>%q\<close> renders a
  rune: in single quotes.
\<close>

theorem invalid_character_single_quotes:
  "LexAll U (NewLexer (gostr ''@'')) =
     Inr ([], [gostr ''lexical error at 1:1: invalid character '' @ [rn CHR 0x27, rn CHR ''@'', rn CHR 0x27]])"
  by code_simp

text \<open>The message of the claim as stated, with \<^verbatim>\<open>@\<close> in double quotes, is not the one recorded.\<close>

theorem invalid_character_not_double_quotes:
  "LexAll no_tables (NewLexer (gostr ''@'')) \<noteq>
     Inr ([], [gostr ''lexical error at 1:1: invalid character '' @ [rn CHR 0x22, rn CHR ''@'', rn CHR 0x22]])"
  by code_simp

subsection \<open>C5: identifiers, keywords and type names\<close>

lemma drop_peek:
  "peek_at lx 0 \<noteq> 0 \<Longrightarrow> drop (lx_i lx) (lx_src lx) = peek_at lx 0 # drop (Suc (lx_i lx)) (lx_src lx)"
  using peek_at_nonzero [of lx 0]
  by (simp add: peek_at_def lx_length_def Cons_nth_drop_Suc)

lemma drop_peek_cases:
  "drop (lx_i lx) (lx_src lx) = [] \<and> peek_at lx 0 = 0 \<or>
   drop (lx_i lx) (lx_src lx) = peek_at lx 0 # drop (Suc (lx_i lx)) (lx_src lx)"
  by (cases "lx_i lx < length (lx_src lx)") (simp_all add: peek_at_def lx_length_def Cons_nth_drop_Suc)

lemma ident_loop_run:
  "ident_loop U b lx =
     (b @ takeWhile (isIdentPart U) (drop (lx_i lx) (lx_src lx)),
      consume (length (takeWhile (isIdentPart U) (drop (lx_i lx) (lx_src lx)))) lx)"
proof (induction U b lx rule: ident_loop.induct)
  case (1 U b lx)
  show ?case
  proof (cases "isIdentPart U (peek_at lx 0)")
    case True
    then have nz: "peek_at lx 0 \<noteq> 0" by (rule isIdentPart_nonzero)
    have e: "ident_loop U b lx = ident_loop U (b @ [peek_at lx 0]) (consume 1 lx)"
      using True nz by (subst ident_loop.simps) (simp add: advance_peek)
    have ih: "ident_loop U (b @ [peek_at lx 0]) (consume 1 lx) =
       ((b @ [peek_at lx 0]) @ takeWhile (isIdentPart U) (drop (lx_i (consume 1 lx)) (lx_src (consume 1 lx))),
        consume (length (takeWhile (isIdentPart U) (drop (lx_i (consume 1 lx)) (lx_src (consume 1 lx))))) (consume 1 lx))"
      using "1.IH" [OF True] nz by (simp add: advance_peek)
    show ?thesis
      unfolding e ih using True drop_peek [OF nz] by simp
  next
    case False
    then have "ident_loop U b lx = (b, lx)" by (subst ident_loop.simps) simp
    moreover have "takeWhile (isIdentPart U) (drop (lx_i lx) (lx_src lx)) = []"
      using False drop_peek_cases [of lx] by auto
    ultimately show ?thesis by simp
  qed
qed

text \<open>
  C5. Started on an identifier-start code point, the scanner consumes the maximal run of
  identifier-continue code points under the cursor and appends exactly one token: the
  keyword of the lowercased run if the keyword table has it, otherwise a type name if
  the run, in its own case, is in the type-name table, otherwise an identifier. The
  lexeme is the run as written, the position is where it starts, and no error is
  recorded.
\<close>

theorem scanIdentOrKeyword_run:
  "isIdentStart U (peek_at lx 0) \<Longrightarrow>
   (let run = takeWhile (isIdentPart U) (drop (lx_i lx) (lx_src lx));
        kind = (case keywords_table (ToLower U run) of
                  Some kw \<Rightarrow> kw
                | None \<Rightarrow> if run \<in> typeNames then TYPE_NAME else IDENT)
    in run \<noteq> [] \<and> hd run = peek_at lx 0 \<and>
       scanIdentOrKeyword U lx =
         (consume (length run) lx)\<lparr>lx_tokens := lx_tokens lx @
            [\<lparr>Type = kind, Lexeme = run, Line = lx_line lx, Column = lx_col lx,
              IntVal = None, FloatVal = None\<rparr>]\<rparr> \<and>
       lx_errors (scanIdentOrKeyword U lx) = lx_errors lx)"
proof -
  assume a: "isIdentStart U (peek_at lx 0)"
  then have part: "isIdentPart U (peek_at lx 0)" by (auto simp: isIdentStart_def isIdentPart_def)
  then have nz: "peek_at lx 0 \<noteq> 0" by (rule isIdentPart_nonzero)
  have "takeWhile (isIdentPart U) (drop (lx_i lx) (lx_src lx)) =
        peek_at lx 0 # takeWhile (isIdentPart U) (drop (Suc (lx_i lx)) (lx_src lx))"
    using drop_peek [OF nz] part by simp
  then show ?thesis
    by (auto simp: scanIdentOrKeyword_def ident_loop_run Let_def add_def split: option.splits)
qed

theorem scanIdentOrKeyword_run_witness:
  "isIdentStart no_tables (peek_at (NewLexer (gostr ''If x'')) 0) \<and>
   lx_tokens (scanIdentOrKeyword no_tables (NewLexer (gostr ''If x''))) =
     [\<lparr>Type = KW_IF, Lexeme = gostr ''If'', Line = 1, Column = 1, IntVal = None, FloatVal = None\<rparr>]"
proof -
  have s: "isIdentStart no_tables (peek_at (NewLexer (gostr ''If x'')) 0)" by code_simp
  have r: "takeWhile (isIdentPart no_tables) (drop (lx_i (NewLexer (gostr ''If x''))) (lx_src (NewLexer (gostr ''If x'')))) = gostr ''If''"
    by code_simp
  have k: "keywords_table (ToLower no_tables (gostr ''If'')) = Some KW_IF" by code_simp
  show ?thesis
    using scanIdentOrKeyword_run [OF s] s unfolding Let_def r k
    by (simp add: NewLexer_def)
qed

subsection \<open>C6: double-quoted strings\<close>

text \<open>
  The contract of the double-quoted string in the words of the specification, over the
  code points that follow the opening quote: how many of them are consumed and how the
  scan ends. A backslash takes the next code point with it; the string is closed by the
  first quote that is not taken by a backslash. The first argument is the code point, if
  any, that counts as the end of the input.
\<close>

datatype string_end = Closed | UnterminatedEscape | UnterminatedLiteral

fun string_contract :: "rune option \<Rightarrow> rune list \<Rightarrow> nat \<times> string_end" where
  "string_contract eoi [] = (0, UnterminatedLiteral)"
| "string_contract eoi (ch # rest) =
     (if Some ch = eoi \<or> ch = rn CHR 0x0A then (0, UnterminatedLiteral)
      else if ch = rn CHR 0x5C then
        (case rest of
           [] \<Rightarrow> (1, UnterminatedEscape)
         | e # rest' \<Rightarrow>
             if Some e = eoi \<or> e = rn CHR 0x0A then (1, UnterminatedEscape)
             else (case string_contract eoi rest' of (n, r) \<Rightarrow> (n + 2, r)))
      else if ch = rn CHR 0x22 then (1, Closed)
      else (case string_contract eoi rest of (n, r) \<Rightarrow> (n + 1, r)))"

definition string_finish :: "nat \<Rightarrow> nat \<Rightarrow> string_end \<Rightarrow> gostring \<Rightarrow> Lexer \<Rightarrow> Lexer" where
  "string_finish l c r b lx =
     (case r of
        Closed \<Rightarrow> add STRING_LIT b l c None None lx
      | UnterminatedEscape \<Rightarrow> errorAt l c (gostr ''unterminated string escape'') lx
      | UnterminatedLiteral \<Rightarrow> errorAt l c (gostr ''unterminated string literal'') lx)"

definition scanString_contract :: "rune option \<Rightarrow> Lexer \<Rightarrow> Lexer" where
  "scanString_contract eoi lx =
     (case string_contract eoi (drop (lx_i lx + 1) (lx_src lx)) of
        (n, r) \<Rightarrow>
          string_finish (lx_line lx) (lx_col lx) r (take (n + 1) (drop (lx_i lx) (lx_src lx)))
            (consume (n + 1) lx))"

lemma RuneLen_pos: "0 < RuneLen r"
  by (simp add: RuneLen_def)

lemma Builder_Len_snoc: "b \<noteq> [] \<Longrightarrow> 2 \<le> Builder_Len (b @ [r])"
proof -
  assume "b \<noteq> []"
  then obtain x xs where "b = x # xs" by (cases b) auto
  then show ?thesis
    using RuneLen_pos [of x] RuneLen_pos [of r] by (simp add: Builder_Len_def)
qed

lemma scanString_loop_contract:
  "b \<noteq> [] \<Longrightarrow>
   scanString_loop l c b lx =
     Inr (case string_contract (Some 0) (drop (lx_i lx) (lx_src lx)) of
            (n, r) \<Rightarrow> string_finish l c r (b @ take n (drop (lx_i lx) (lx_src lx))) (consume n lx))"
proof (induction l c b lx rule: scanString_loop.induct)
  case (1 l c b lx)
  let ?lx1 = "snd (advance lx)" and ?b1 = "b @ [fst (advance lx)]"
  let ?rest = "drop (Suc (lx_i lx)) (lx_src lx)"
  consider (stop) "peek_at lx 0 = 0 \<or> peek_at lx 0 = rn CHR 0x0A"
    | (esc) "\<not> (peek_at lx 0 = 0 \<or> peek_at lx 0 = rn CHR 0x0A)" "peek_at lx 0 = rn CHR 0x5C"
    | (plain) "\<not> (peek_at lx 0 = 0 \<or> peek_at lx 0 = rn CHR 0x0A)" "peek_at lx 0 \<noteq> rn CHR 0x5C"
    by blast
  then show ?case
  proof cases
    case stop
    then have "scanString_loop l c b lx = Inr (errorAt l c (gostr ''unterminated string literal'') lx)"
      by (subst scanString_loop.simps) (simp add: Let_def)
    moreover have "string_contract (Some 0) (drop (lx_i lx) (lx_src lx)) = (0, UnterminatedLiteral)"
      using stop drop_peek_cases [of lx] by auto
    ultimately show ?thesis by (simp add: string_finish_def)
  next
    case esc
    then have nz: "peek_at lx 0 \<noteq> 0" by simp
    have adv: "advance lx = (peek_at lx 0, consume 1 lx)" by (rule advance_peek [OF nz])
    have d0: "drop (lx_i lx) (lx_src lx) = rn CHR 0x5C # ?rest" using drop_peek [OF nz] esc by simp
    show ?thesis
    proof (cases "peek_at ?lx1 0 = 0 \<or> peek_at ?lx1 0 = rn CHR 0x0A")
      case True
      then have "scanString_loop l c b lx = Inr (errorAt l c (gostr ''unterminated string escape'') ?lx1)"
        using esc by (subst scanString_loop.simps) (simp add: Let_def)
      then have "scanString_loop l c b lx = Inr (errorAt l c (gostr ''unterminated string escape'') (consume 1 lx))"
        using adv by simp
      moreover have "string_contract (Some 0) (drop (lx_i lx) (lx_src lx)) = (1, UnterminatedEscape)"
        using True drop_peek_cases [of "consume 1 lx"] adv unfolding d0
        by (auto split: list.splits)
      ultimately show ?thesis by (simp add: string_finish_def)
    next
      case False
      then have nz1: "peek_at (consume 1 lx) 0 \<noteq> 0" using adv by simp
      have adv1: "advance (consume 1 lx) = (peek_at lx 1, consume 2 lx)"
        using advance_peek [OF nz1] by (simp add: numeral_2_eq_2)
      have d1: "?rest = peek_at lx 1 # drop (Suc (Suc (lx_i lx))) (lx_src lx)"
        using drop_peek [OF nz1] by simp
      have "scanString_loop l c b lx = scanString_loop l c (?b1 @ [fst (advance ?lx1)]) (snd (advance ?lx1))"
        using esc False by (subst scanString_loop.simps) (simp add: Let_def)
      then have e: "scanString_loop l c b lx = scanString_loop l c (b @ [peek_at lx 0, peek_at lx 1]) (consume 2 lx)"
        using adv adv1 by simp
      have ih: "scanString_loop l c (b @ [peek_at lx 0, peek_at lx 1]) (consume 2 lx) =
          Inr (case string_contract (Some 0) (drop (lx_i lx + 2) (lx_src lx)) of
            (n, r) \<Rightarrow> string_finish l c r ((b @ [peek_at lx 0, peek_at lx 1]) @ take n (drop (lx_i lx + 2) (lx_src lx)))
                        (consume (2 + n) lx))"
        using "1.IH"(1) [OF refl esc(1,2) refl refl False] adv adv1 by simp
      have tk: "take (Suc (Suc n)) (drop (lx_i lx) (lx_src lx)) =
                peek_at lx 0 # peek_at lx 1 # take n (drop (Suc (Suc (lx_i lx))) (lx_src lx))" for n
        using d0 d1 esc by simp
      have c: "string_contract (Some 0) (drop (lx_i lx) (lx_src lx)) =
               (case string_contract (Some 0) (drop (lx_i lx + 2) (lx_src lx)) of (n, r) \<Rightarrow> (n + 2, r))"
        using False adv unfolding d0 d1 by (simp add: peek_at_def split: if_splits)
      show ?thesis
        unfolding e ih c by (simp add: tk split: prod.splits add: add.commute)
    qed
  next
    case plain
    then have nz: "peek_at lx 0 \<noteq> 0" by simp
    have adv: "advance lx = (peek_at lx 0, consume 1 lx)" by (rule advance_peek [OF nz])
    have d0: "drop (lx_i lx) (lx_src lx) = peek_at lx 0 # ?rest" using drop_peek [OF nz] by simp
    have pb: "peek ?lx1 (- 1) = Inr (peek_at lx 0)" by (rule peek_back [OF nz])
    have len: "2 \<le> Builder_Len ?b1" using Builder_Len_snoc [OF "1.prems"] .
    define closing where "closing \<longleftrightarrow> peek_at lx 0 = rn CHR 0x22"
    have last: "DecodeLastRuneInString ?b1 = peek_at lx 0"
      using adv by (simp add: DecodeLastRuneInString_def)
    have cond: "(if Builder_Len ?b1 \<ge> 2 \<and> DecodeLastRuneInString ?b1 = rn CHR 0x22
               then (case peek ?lx1 (- 1) of Inl p \<Rightarrow> Inl p | Inr r \<Rightarrow> Inr (r \<noteq> rn CHR 0x5C))
               else Inr False) = Inr closing"
      unfolding last pb using plain len by (auto simp: closing_def)
    show ?thesis
    proof (cases closing)
      case True
      then have "scanString_loop l c b lx = Inr (add STRING_LIT ?b1 l c None None ?lx1)"
        using plain cond by (subst scanString_loop.simps) (simp add: Let_def)
      then have "scanString_loop l c b lx = Inr (add STRING_LIT (b @ [peek_at lx 0]) l c None None (consume 1 lx))"
        using adv by simp
      moreover have "string_contract (Some 0) (drop (lx_i lx) (lx_src lx)) = (1, Closed)"
        using True plain unfolding d0 closing_def by simp
      ultimately show ?thesis using d0 by (simp add: string_finish_def)
    next
      case nc: False
      have c: "string_contract (Some 0) (drop (lx_i lx) (lx_src lx)) =
               (case string_contract (Some 0) ?rest of (n, r) \<Rightarrow> (n + 1, r))"
        using plain nc unfolding d0 closing_def by simp
      show ?thesis
      proof (cases "peek_at ?lx1 0 = rn CHR 0x22")
        case True
        then have nz1: "peek_at (consume 1 lx) 0 \<noteq> 0" and q: "peek_at lx 1 = rn CHR 0x22" using adv by simp_all
        have adv1: "advance (consume 1 lx) = (peek_at lx 1, consume 2 lx)"
          using advance_peek [OF nz1] by (simp add: numeral_2_eq_2)
        have d1: "?rest = peek_at lx 1 # drop (Suc (Suc (lx_i lx))) (lx_src lx)"
          using drop_peek [OF nz1] by simp
        have "scanString_loop l c b lx =
              Inr (add STRING_LIT (?b1 @ [fst (advance ?lx1)]) l c None None (snd (advance ?lx1)))"
          using plain cond nc True by (subst scanString_loop.simps) (simp add: Let_def)
        then have "scanString_loop l c b lx =
              Inr (add STRING_LIT (b @ [peek_at lx 0, peek_at lx 1]) l c None None (consume 2 lx))"
          using adv adv1 by simp
        moreover have "string_contract (Some 0) ?rest = (1, Closed)"
          using q unfolding d1 by simp
        ultimately show ?thesis
          unfolding c using d0 d1 by (simp add: string_finish_def numeral_2_eq_2)
      next
        case False
        have "scanString_loop l c b lx = scanString_loop l c ?b1 ?lx1"
          using plain cond nc False by (subst scanString_loop.simps) (simp add: Let_def)
        then have e: "scanString_loop l c b lx = scanString_loop l c (b @ [peek_at lx 0]) (consume 1 lx)"
          using adv by simp
        have ih: "scanString_loop l c (b @ [peek_at lx 0]) (consume 1 lx) =
          Inr (case string_contract (Some 0) ?rest of
            (n, r) \<Rightarrow> string_finish l c r ((b @ [peek_at lx 0]) @ take n ?rest) (consume (1 + n) lx))"
          using "1.IH"(2) [OF refl plain(1,2) refl refl cond nc False] adv by simp
        show ?thesis
          unfolding e ih c using d0 by (simp split: prod.splits add: add.commute)
      qed
    qed
  qed
qed

text \<open>
  C6. Started on a double quote, \<^verbatim>\<open>scanString\<close> does what the contract says when a
  code point U+0000 counts as the end of the input, as it does for \<^verbatim>\<open>peek\<close>: it
  stops at the first closing quote not taken by a backslash and appends one string token
  whose lexeme is the consumed text, quotes included; or it records "unterminated string
  escape" when the end or a newline follows a backslash, "unterminated string literal"
  when the end or a newline comes before the closing quote, and appends no token then.
\<close>

theorem scanString_meets_contract:
  "peek_at lx 0 = rn CHR 0x22 \<Longrightarrow> scanString lx = Inr (scanString_contract (Some 0) lx)"
proof -
  assume q: "peek_at lx 0 = rn CHR 0x22"
  then have nz: "peek_at lx 0 \<noteq> 0" by simp
  have adv: "advance lx = (rn CHR 0x22, consume 1 lx)" using advance_peek [OF nz] q by simp
  have d0: "drop (lx_i lx) (lx_src lx) = rn CHR 0x22 # drop (Suc (lx_i lx)) (lx_src lx)"
    using drop_peek [OF nz] q by simp
  have "scanString lx = scanString_loop (lx_line lx) (lx_col lx) [rn CHR 0x22] (consume 1 lx)"
    using adv by (simp add: scanString_def Let_def)
  also have "\<dots> = Inr (case string_contract (Some 0) (drop (Suc (lx_i lx)) (lx_src lx)) of
            (n, r) \<Rightarrow> string_finish (lx_line lx) (lx_col lx) r
               ([rn CHR 0x22] @ take n (drop (Suc (lx_i lx)) (lx_src lx))) (consume (1 + n) lx))"
    using scanString_loop_contract [of "[rn CHR 0x22]" "lx_line lx" "lx_col lx" "consume 1 lx"]
    by simp
  also have "\<dots> = Inr (scanString_contract (Some 0) lx)"
    unfolding scanString_contract_def using d0 by (simp split: prod.splits add: add.commute)
  finally show ?thesis .
qed

theorem scanString_meets_contract_witness:
  "peek_at (NewLexer [0x22, 0x61, 0x5C, 0x22, 0x62, 0x22, 0x20, 0x78]) 0 = rn CHR 0x22 \<and>
   scanString (NewLexer [0x22, 0x61, 0x5C, 0x22, 0x62, 0x22, 0x20, 0x78]) =
     Inr (add STRING_LIT [0x22, 0x61, 0x5C, 0x22, 0x62, 0x22] 1 1 None None
            (consume 6 (NewLexer [0x22, 0x61, 0x5C, 0x22, 0x62, 0x22, 0x20, 0x78])))"
proof -
  have q: "peek_at (NewLexer [0x22, 0x61, 0x5C, 0x22, 0x62, 0x22, 0x20, 0x78]) 0 = rn CHR 0x22"
    by code_simp
  have c: "scanString_contract (Some 0) (NewLexer [0x22, 0x61, 0x5C, 0x22, 0x62, 0x22, 0x20, 0x78]) =
      add STRING_LIT [0x22, 0x61, 0x5C, 0x22, 0x62, 0x22] 1 1 None None
            (consume 6 (NewLexer [0x22, 0x61, 0x5C, 0x22, 0x62, 0x22, 0x20, 0x78]))"
    by code_simp
  show ?thesis using scanString_meets_contract [OF q] q c by simp
qed

text \<open>
  With only the real end of the input as end, the claim fails: in the string made of a
  quote, U+0000 and a quote, the contract closes the string at the second quote, and
  \<^verbatim>\<open>scanString\<close> records an unterminated string literal.
\<close>

theorem scanString_NUL_inside_string:
  "scanString (NewLexer [0x22, 0, 0x22]) =
     Inr (errorAt 1 1 (gostr ''unterminated string literal'') (consume 1 (NewLexer [0x22, 0, 0x22]))) \<and>
   scanString_contract None (NewLexer [0x22, 0, 0x22]) =
     add STRING_LIT [0x22, 0, 0x22] 1 1 None None (consume 3 (NewLexer [0x22, 0, 0x22]))"
  by code_simp

subsection \<open>C7: the underscore rule\<close>

text \<open>
  The rule in the words of the specification: a text is rejected if it is empty, starts or
  ends with an underscore, contains two underscores in a row, or contains an underscore
  next to one of \<^verbatim>\<open>. e E x X b B o O\<close>, in either order.
\<close>

definition adjacent :: "gostring \<Rightarrow> rune \<Rightarrow> rune \<Rightarrow> bool" where
  "adjacent s a b = list_ex (\<lambda>k. s ! k = a \<and> s ! Suc k = b) [0..<length s - 1]"

definition rejected_by_rule :: "gostring \<Rightarrow> bool" where
  "rejected_by_rule s \<longleftrightarrow>
     s = [] \<or> hd s = rn CHR ''_'' \<or> last s = rn CHR ''_'' \<or> adjacent s (rn CHR ''_'') (rn CHR ''_'')
     \<or> list_ex (\<lambda>ch. adjacent s (rn CHR ''_'') ch \<or> adjacent s ch (rn CHR ''_'')) (gostr ''.eExXbBoO'')"

text \<open>The literal under the cursor starts with a base prefix.\<close>

definition base_prefixed :: "Lexer \<Rightarrow> bool" where
  "base_prefixed lx \<longleftrightarrow>
     peek_at lx 0 = rn CHR ''0''
     \<and> (peek_at lx 1 = rn CHR ''x'' \<or> peek_at lx 1 = rn CHR ''X'' \<or> peek_at lx 1 = rn CHR ''b''
        \<or> peek_at lx 1 = rn CHR ''B'' \<or> peek_at lx 1 = rn CHR ''o'' \<or> peek_at lx 1 = rn CHR ''O'')"

text \<open>
  The numeric forms, over the text under the cursor. A literal that starts with
  \<^verbatim>\<open>0\<close> and one of \<^verbatim>\<open>x X b B o O\<close> is prefixed: after the two code points of the
  prefix it extends over the longest run of underscores, digits (any digit, in the binary
  and octal forms too) and, in the hexadecimal form, the letters \<^verbatim>\<open>a\<close> to \<^verbatim>\<open>f\<close>
  and \<^verbatim>\<open>A\<close> to \<^verbatim>\<open>F\<close>. Any other literal is
  decimal: the longest run of digits and underscores; then, if a dot and a digit follow,
  the dot and the longest run of digits and underscores; then, if \<^verbatim>\<open>e\<close> or \<^verbatim>\<open>E\<close>
  follows, that letter, an optional sign and the longest run of digits and underscores,
  which has to start with a digit. \<open>number_extent\<close> gives the number of code points of
  the literal and its form. \<open>digit_text\<close> is the digit-bearing text of a form: the text
  after the prefix in a prefixed form, the whole text otherwise.
\<close>

definition starts_with :: "rune list \<Rightarrow> (rune \<Rightarrow> bool) \<Rightarrow> bool" where
  "starts_with t P \<longleftrightarrow> (case t of [] \<Rightarrow> False | ch # _ \<Rightarrow> P ch)"

definition digit_run :: "unicode_tables \<Rightarrow> rune list \<Rightarrow> nat" where
  "digit_run U t = length (takeWhile (\<lambda>ch. IsDigit U ch \<or> ch = rn CHR ''_'') t)"

datatype number_form = Hex | Binary | Octal | Integer | Float | NoExponentDigits

definition prefix_form :: "rune \<Rightarrow> number_form" where
  "prefix_form base =
     (if base = rn CHR ''x'' \<or> base = rn CHR ''X'' then Hex
      else if base = rn CHR ''b'' \<or> base = rn CHR ''B'' then Binary
      else Octal)"

definition prefixed_digit :: "unicode_tables \<Rightarrow> number_form \<Rightarrow> rune \<Rightarrow> bool" where
  "prefixed_digit U form ch \<longleftrightarrow>
     ch = rn CHR ''_'' \<or> IsDigit U ch
     \<or> form = Hex \<and> (rn CHR ''a'' \<le> ch \<and> ch \<le> rn CHR ''f'' \<or> rn CHR ''A'' \<le> ch \<and> ch \<le> rn CHR ''F'')"

definition number_extent :: "unicode_tables \<Rightarrow> rune list \<Rightarrow> nat \<times> number_form" where
  "number_extent U t =
     (if starts_with t (\<lambda>ch. ch = rn CHR ''0'') \<and> starts_with (drop 1 t) (\<lambda>ch. ch \<in> set (gostr ''xXbBoO''))
      then (let form = prefix_form (t ! 1)
            in (2 + length (takeWhile (prefixed_digit U form) (drop 2 t)), form))
      else
        (let a = digit_run U t;
             frac = (starts_with (drop a t) (\<lambda>ch. ch = rn CHR ''.'') \<and> starts_with (drop (a + 1) t) (IsDigit U));
             b = (if frac then a + 1 + digit_run U (drop (a + 1) t) else a)
         in if starts_with (drop b t) (\<lambda>ch. ch = rn CHR ''e'' \<or> ch = rn CHR ''E'') then
              (let s = (if starts_with (drop (b + 1) t) (\<lambda>ch. ch = rn CHR ''+'' \<or> ch = rn CHR ''-'')
                        then b + 2 else b + 1)
               in if starts_with (drop s t) (IsDigit U) then (s + digit_run U (drop s t), Float)
                  else (s, NoExponentDigits))
            else (b, if frac then Float else Integer)))"

definition digit_text :: "number_form \<Rightarrow> gostring \<Rightarrow> gostring" where
  "digit_text form text = (if form = Hex \<or> form = Binary \<or> form = Octal then drop 2 text else text)"

definition token_kind :: "number_form \<Rightarrow> TokenType" where
  "token_kind form = (if form = Float then FLOAT_LIT else INT_LIT)"

definition rejection_message :: "number_form \<Rightarrow> gostring" where
  "rejection_message form =
     (case form of
        Hex \<Rightarrow> gostr ''invalid hex literal''
      | Binary \<Rightarrow> gostr ''invalid binary literal''
      | Octal \<Rightarrow> gostr ''invalid octal literal''
      | NoExponentDigits \<Rightarrow> gostr ''invalid float exponent''
      | _ \<Rightarrow> gostr ''illegal underscore placement in number'')"

text \<open>
  What \<^verbatim>\<open>scanNumber\<close> has to do at \<open>lx\<close>: consume the literal and, unless the
  exponent has no digit, let the underscore rule decide on its digit-bearing text between
  one token and one error, both at the position where the literal starts.
\<close>

definition number_contract :: "unicode_tables \<Rightarrow> Lexer \<Rightarrow> Lexer" where
  "number_contract U lx =
     (let t = drop (lx_i lx) (lx_src lx); l = lx_line lx; c = lx_col lx;
          k = fst (number_extent U t); form = snd (number_extent U t);
          text = take k t; lx' = consume k lx
      in if form \<noteq> NoExponentDigits \<and> validUnderscores (digit_text form text)
           then add (token_kind form) text l c None None lx'
         else errorAt l c (rejection_message form) lx')"

lemma adjacent_iff: "adjacent s a b \<longleftrightarrow> (\<exists>k. Suc k < length s \<and> s ! k = a \<and> s ! Suc k = b)"
  unfolding adjacent_def list_ex_iff by (auto simp: less_diff_conv)

lemma adjacent_Cons:
  "adjacent (x # xs) a b \<longleftrightarrow> (x = a \<and> xs \<noteq> [] \<and> hd xs = b) \<or> adjacent xs a b"
proof
  assume "adjacent (x # xs) a b"
  then obtain k where k: "Suc k < length (x # xs)" "(x # xs) ! k = a" "(x # xs) ! Suc k = b"
    unfolding adjacent_iff by blast
  show "(x = a \<and> xs \<noteq> [] \<and> hd xs = b) \<or> adjacent xs a b"
  proof (cases k)
    case 0
    then show ?thesis using k by (cases xs) auto
  next
    case (Suc j)
    then have "Suc j < length xs \<and> xs ! j = a \<and> xs ! Suc j = b" using k by simp
    then show ?thesis unfolding adjacent_iff by blast
  qed
next
  assume "(x = a \<and> xs \<noteq> [] \<and> hd xs = b) \<or> adjacent xs a b"
  then show "adjacent (x # xs) a b"
  proof
    assume "x = a \<and> xs \<noteq> [] \<and> hd xs = b"
    then have "Suc 0 < length (x # xs) \<and> (x # xs) ! 0 = a \<and> (x # xs) ! Suc 0 = b"
      by (cases xs) auto
    then show ?thesis unfolding adjacent_iff by blast
  next
    assume "adjacent xs a b"
    then obtain k where "Suc k < length xs" "xs ! k = a" "xs ! Suc k = b"
      unfolding adjacent_iff by blast
    then have "Suc (Suc k) < length (x # xs) \<and> (x # xs) ! Suc k = a \<and> (x # xs) ! Suc (Suc k) = b"
      by simp
    then show ?thesis unfolding adjacent_iff by blast
  qed
qed

lemma Contains_pair: "Contains s [a, b] \<longleftrightarrow> adjacent s a b"
proof (induction s)
  case Nil
  then show ?case by (simp add: adjacent_def)
next
  case (Cons x xs)
  have "prefix [a, b] (x # xs) \<longleftrightarrow> x = a \<and> xs \<noteq> [] \<and> hd xs = b"
    by (cases xs) auto
  then show ?case using Cons by (simp add: adjacent_Cons)
qed

lemma validUnderscores_iff: "validUnderscores s \<longleftrightarrow> \<not> rejected_by_rule s"
proof (cases "s = []")
  case True
  then show ?thesis by (simp add: validUnderscores_def rejected_by_rule_def)
next
  case False
  then have "s ! 0 = hd s" "s ! (length s - 1) = last s"
    by (simp_all add: hd_conv_nth last_conv_nth)
  then show ?thesis
    using False
    by (simp add: validUnderscores_def rejected_by_rule_def bad_def gostr_def Contains_pair)
qed

lemma not_valid_Nil [simp]: "\<not> validUnderscores []"
  by (simp add: validUnderscores_def)

lemma slice_consume:
  "lx_i lx + a + k \<le> lx_length lx \<Longrightarrow>
   slice (lx_src lx) (lx_i lx + a) (lx_i lx + a + k) = Inr (take k (drop (lx_i lx + a) (lx_src lx)))"
  by (simp add: slice_def lx_length_def)

lemma starts_with_drop:
  assumes "\<not> P 0"
  shows "starts_with (drop n (drop (lx_i lx) (lx_src lx))) P \<longleftrightarrow> P (peek_at lx n)"
proof (cases "lx_i lx + n < length (lx_src lx)")
  case True
  then have "drop (n + lx_i lx) (lx_src lx) = lx_src lx ! (lx_i lx + n) # drop (Suc (lx_i lx + n)) (lx_src lx)"
    by (simp add: Cons_nth_drop_Suc add.commute)
  then show ?thesis using True by (simp add: starts_with_def peek_at_def lx_length_def)
next
  case False
  then show ?thesis using assms by (simp add: starts_with_def peek_at_def lx_length_def)
qed

lemma starts_with_under:
  "\<not> P 0 \<Longrightarrow> starts_with (drop (lx_i lx) (lx_src lx)) P \<longleftrightarrow> P (peek_at lx 0)"
  using starts_with_drop [of P 0 lx] by simp

lemma digits_loop_run:
  "digits_loop U lx = consume (digit_run U (drop (lx_i lx) (lx_src lx))) lx"
proof (induction U lx rule: digits_loop.induct)
  case (1 U lx)
  show ?case
  proof (cases "IsDigit U (peek_at lx 0) \<or> peek_at lx 0 = rn CHR ''_''")
    case True
    then have nz: "peek_at lx 0 \<noteq> 0" by (auto dest: IsDigit_nonzero)
    have e: "digits_loop U lx = digits_loop U (consume 1 lx)"
      using True nz by (subst digits_loop.simps) (simp add: advance_peek)
    have ih: "digits_loop U (consume 1 lx) =
        consume (digit_run U (drop (lx_i (consume 1 lx)) (lx_src (consume 1 lx)))) (consume 1 lx)"
      using "1.IH" [OF True] nz by (simp add: advance_peek)
    show ?thesis
      unfolding e ih using True drop_peek [OF nz] by (simp add: digit_run_def)
  next
    case False
    then have "digits_loop U lx = lx" by (subst digits_loop.simps) simp
    moreover have "digit_run U (drop (lx_i lx) (lx_src lx)) = 0"
      using False drop_peek_cases [of lx] by (auto simp: digit_run_def)
    ultimately show ?thesis by simp
  qed
qed

lemma base_loop_run:
  "base_loop U base count lx =
     (count + int (length (takeWhile (base_loop_cond U base) (drop (lx_i lx) (lx_src lx)))),
      consume (length (takeWhile (base_loop_cond U base) (drop (lx_i lx) (lx_src lx)))) lx)"
proof (induction U base count lx rule: base_loop.induct)
  case (1 U base count lx)
  show ?case
  proof (cases "base_loop_cond U base (peek_at lx 0)")
    case True
    then have nz: "peek_at lx 0 \<noteq> 0" by (rule base_loop_cond_nonzero)
    have e: "base_loop U base count lx = base_loop U base (count + 1) (consume 1 lx)"
      using True nz by (subst base_loop.simps) (simp add: Let_def advance_peek)
    have ih: "base_loop U base (count + 1) (consume 1 lx) =
       (count + 1 + int (length (takeWhile (base_loop_cond U base) (drop (lx_i (consume 1 lx)) (lx_src (consume 1 lx))))),
        consume (length (takeWhile (base_loop_cond U base) (drop (lx_i (consume 1 lx)) (lx_src (consume 1 lx))))) (consume 1 lx))"
      using "1.IH" [OF refl True] nz by (simp add: advance_peek)
    show ?thesis
      unfolding e ih using True drop_peek [OF nz] by simp
  next
    case False
    then have "base_loop U base count lx = (count, lx)"
      by (subst base_loop.simps) (simp add: Let_def)
    moreover have "takeWhile (base_loop_cond U base) (drop (lx_i lx) (lx_src lx)) = []"
      using False drop_peek_cases [of lx] by auto
    ultimately show ?thesis by simp
  qed
qed

lemma base_loop_cond_prefixed_digit:
  "base_loop_cond U base = prefixed_digit U (prefix_form base)"
  by (rule ext) (auto simp: base_loop_cond_def prefixed_digit_def prefix_form_def IsDigit_def)

lemma digit_run_le: "digit_run U t \<le> length t"
  by (simp add: digit_run_def length_takeWhile_le)

lemma drop_consume:
  "drop (lx_i (consume n lx)) (lx_src (consume n lx)) = drop n (drop (lx_i lx) (lx_src lx))"
  by (simp add: add.commute)

lemma digits_loop_consume:
  "digits_loop U (consume n lx) = consume (n + digit_run U (drop n (drop (lx_i lx) (lx_src lx)))) lx"
  unfolding digits_loop_run drop_consume by simp

lemma digit_run_no_float_mark:
  "\<not> ContainsAny (take (digit_run U t) t) (gostr ''.eE'')"
proof -
  have "take (digit_run U t) t = takeWhile (\<lambda>ch. IsDigit U ch \<or> ch = rn CHR ''_'') t"
    unfolding digit_run_def by (rule takeWhile_eq_take [symmetric])
  moreover have "\<forall>ch \<in> set (takeWhile (\<lambda>ch. IsDigit U ch \<or> ch = rn CHR ''_'') t). ch \<notin> set (gostr ''.eE'')"
    by (auto dest!: set_takeWhileD simp: IsDigit_def gostr_def)
  ultimately show ?thesis by (simp add: ContainsAny_def list_ex_iff)
qed

lemma scanNumber_finish_consume:
  assumes "lx_i lx + k \<le> lx_length lx"
  shows "scanNumber_finish fl l c (lx_i lx) (consume k lx) =
     Inr (let text = take k (drop (lx_i lx) (lx_src lx)) in
          if \<not> validUnderscores text
            then errorAt l c (gostr ''illegal underscore placement in number'') (consume k lx)
          else if fl \<or> ContainsAny text (gostr ''.eE'')
            then add FLOAT_LIT text l c None None (consume k lx)
          else add INT_LIT text l c None None (consume k lx))"
  using slice_consume [of lx 0 k] assms by (simp add: scanNumber_finish_def Let_def)

lemma prefixed_number_contract:
  assumes True: "base_prefixed lx"
  shows "scanNumber U lx = Inr (number_contract U lx)"
proof -
  let ?t = "drop (lx_i lx) (lx_src lx)"
  let ?base = "peek_at lx 1"
  have nz: "peek_at lx 0 \<noteq> 0" "peek_at lx 1 \<noteq> 0" using True by (auto simp: base_prefixed_def)
  have lx2: "snd (advance (snd (advance lx))) = consume 2 lx"
    using nz by (simp add: advance_peek numeral_2_eq_2)
  have i2: "lx_i lx + 2 \<le> lx_length lx" using peek_at_nonzero [OF nz(2)] by simp
  define n where "n = length (takeWhile (prefixed_digit U (prefix_form ?base)) (drop 2 ?t))"
  have "n \<le> length (drop 2 ?t)" unfolding n_def by (rule length_takeWhile_le)
  then have nle: "lx_i lx + (2 + n) \<le> lx_length lx" using i2 by (simp add: lx_length_def)
  have bl: "base_loop U ?base 0 (consume 2 lx) = (int n, consume (2 + n) lx)"
    using base_loop_run [of U ?base 0 "consume 2 lx"]
    unfolding drop_consume base_loop_cond_prefixed_digit n_def by simp
  have t1: "?t ! 1 = ?base" using peek_at_nonzero [OF nz(2)] by (simp add: peek_at_def lx_length_def)
  have s0: "starts_with ?t (\<lambda>ch. ch = rn CHR ''0'')"
    using True starts_with_under [of "\<lambda>ch. ch = rn CHR ''0''" lx] by (simp add: base_prefixed_def)
  have s1: "starts_with (drop 1 ?t) (\<lambda>ch. ch \<in> set (gostr ''xXbBoO''))"
    using True starts_with_drop [of "\<lambda>ch. ch \<in> set (gostr ''xXbBoO'')" 1 lx]
    by (auto simp: base_prefixed_def gostr_def)
  have ext: "number_extent U ?t = (2 + n, prefix_form ?base)"
    unfolding number_extent_def using s0 s1 t1 by (simp add: Let_def n_def)
  have form: "prefix_form ?base \<noteq> NoExponentDigits" "token_kind (prefix_form ?base) = INT_LIT"
    "digit_text (prefix_form ?base) tx = drop 2 tx"
    "rejection_message (prefix_form ?base) = base_msg ?base" for tx
    using True by (auto simp: prefix_form_def token_kind_def digit_text_def rejection_message_def
        base_msg_def base_prefixed_def)
  have body: "slice (lx_src lx) (lx_i lx + 2) (lx_i lx + 2 + n) = Inr (take n (drop (lx_i lx + 2) (lx_src lx)))"
    using slice_consume [of lx 2 n] nle by simp
  have full: "slice (lx_src lx) (lx_i lx) (lx_i lx + 2 + n) = Inr (take (2 + n) ?t)"
    using slice_consume [of lx 0 "2 + n"] nle by (simp add: add.assoc)
  have dr: "drop 2 (take (2 + n) ?t) = take n (drop (lx_i lx + 2) (lx_src lx))"
    by (simp add: drop_take add.commute)
  have k0: "n = 0 \<Longrightarrow> \<not> validUnderscores (take n (drop (lx_i lx + 2) (lx_src lx)))" by simp
  have "scanNumber U lx =
      (if \<not> validUnderscores (take n (drop (lx_i lx + 2) (lx_src lx)))
       then Inr (errorAt (lx_line lx) (lx_col lx) (base_msg ?base) (consume (2 + n) lx))
       else Inr (add INT_LIT (take (2 + n) ?t) (lx_line lx) (lx_col lx) None None (consume (2 + n) lx)))"
    using True k0 body full unfolding scanNumber_def Let_def base_prefixed_def lx2 bl
    by (auto simp: add.assoc)
  moreover have "number_contract U lx =
      (if validUnderscores (take n (drop (lx_i lx + 2) (lx_src lx)))
       then add INT_LIT (take (2 + n) ?t) (lx_line lx) (lx_col lx) None None (consume (2 + n) lx)
       else errorAt (lx_line lx) (lx_col lx) (base_msg ?base) (consume (2 + n) lx))"
    unfolding number_contract_def Let_def ext fst_conv snd_conv using form dr by simp
  ultimately show ?thesis by simp
qed

lemma decimal_number_contract:
  assumes False: "\<not> base_prefixed lx" and le: "lx_i lx \<le> lx_length lx"
  shows "scanNumber U lx = Inr (number_contract U lx)"
proof -
  let ?t = "drop (lx_i lx) (lx_src lx)"
  let ?l = "lx_line lx" and ?c = "lx_col lx"
  define a where "a = digit_run U ?t"
  define frac where "frac \<longleftrightarrow> starts_with (drop a ?t) (\<lambda>ch. ch = rn CHR ''.'')
      \<and> starts_with (drop (a + 1) ?t) (IsDigit U)"
  define b where "b = (if frac then a + 1 + digit_run U (drop (a + 1) ?t) else a)"
  define hasE where "hasE \<longleftrightarrow> starts_with (drop b ?t) (\<lambda>ch. ch = rn CHR ''e'' \<or> ch = rn CHR ''E'')"
  define s where "s = (if starts_with (drop (b + 1) ?t) (\<lambda>ch. ch = rn CHR ''+'' \<or> ch = rn CHR ''-'')
                        then b + 2 else b + 1)"
  define dig where "dig \<longleftrightarrow> starts_with (drop s ?t) (IsDigit U)"
  define k where "k = s + digit_run U (drop s ?t)"
  have len: "length ?t = lx_length lx - lx_i lx" by (simp add: lx_length_def)
  have nd: "\<not> IsDigit U 0" using IsDigit_nonzero by blast
  have sw: "starts_with (drop n ?t) (\<lambda>ch. ch = rn CHR ''.'') \<longleftrightarrow> peek_at lx n = rn CHR ''.''"
    "starts_with (drop n ?t) (IsDigit U) \<longleftrightarrow> IsDigit U (peek_at lx n)"
    "starts_with (drop n ?t) (\<lambda>ch. ch = rn CHR ''e'' \<or> ch = rn CHR ''E'')
       \<longleftrightarrow> peek_at lx n = rn CHR ''e'' \<or> peek_at lx n = rn CHR ''E''"
    "starts_with (drop n ?t) (\<lambda>ch. ch = rn CHR ''+'' \<or> ch = rn CHR ''-'')
       \<longleftrightarrow> peek_at lx n = rn CHR ''+'' \<or> peek_at lx n = rn CHR ''-''" for n
    using starts_with_drop [of "\<lambda>ch. ch = rn CHR ''.''" n lx] starts_with_drop [of "IsDigit U" n lx] nd
      starts_with_drop [of "\<lambda>ch. ch = rn CHR ''e'' \<or> ch = rn CHR ''E''" n lx]
      starts_with_drop [of "\<lambda>ch. ch = rn CHR ''+'' \<or> ch = rn CHR ''-''" n lx]
    by simp_all
  have np: "\<not> (starts_with ?t (\<lambda>ch. ch = rn CHR ''0'') \<and> starts_with (drop 1 ?t) (\<lambda>ch. ch \<in> set (gostr ''xXbBoO'')))"
    using False starts_with_under [of "\<lambda>ch. ch = rn CHR ''0''" lx]
      starts_with_drop [of "\<lambda>ch. ch \<in> set (gostr ''xXbBoO'')" 1 lx]
    by (auto simp: base_prefixed_def gostr_def)
  have ext: "number_extent U ?t =
      (if hasE then (if dig then (k, Float) else (s, NoExponentDigits))
       else (b, if frac then Float else Integer))"
    unfolding number_extent_def Let_def a_def [symmetric] frac_def [symmetric]
      b_def [symmetric] hasE_def [symmetric] s_def [symmetric] dig_def [symmetric] k_def
    by (simp only: np if_False)
  define lx1 where "lx1 = digits_loop U lx"
  define isFloat where "isFloat \<longleftrightarrow> peek_at lx1 0 = rn CHR ''.'' \<and> IsDigit U (peek_at lx1 1)"
  define lx2 where "lx2 = (if isFloat then digits_loop U (snd (advance lx1)) else lx1)"
  define lx3 where "lx3 = snd (advance lx2)"
  define lx4 where "lx4 = (if peek_at lx3 0 = rn CHR ''+'' \<or> peek_at lx3 0 = rn CHR ''-''
                          then snd (advance lx3) else lx3)"
  have e: "scanNumber U lx =
      (if peek_at lx2 0 = rn CHR ''e'' \<or> peek_at lx2 0 = rn CHR ''E'' then
         (if \<not> IsDigit U (peek_at lx4 0)
            then Inr (errorAt ?l ?c (gostr ''invalid float exponent'') lx4)
          else scanNumber_finish True ?l ?c (lx_i lx) (digits_loop U lx4))
       else scanNumber_finish isFloat ?l ?c (lx_i lx) lx2)"
    unfolding scanNumber_def Let_def lx1_def isFloat_def lx2_def lx3_def lx4_def
    by (simp only: False [unfolded base_prefixed_def] if_False)
  have c1: "lx1 = consume a lx" unfolding lx1_def a_def by (rule digits_loop_run)
  have c2: "isFloat = frac" unfolding isFloat_def frac_def c1 sw by simp
  have c3: "lx2 = consume b lx"
  proof (cases frac)
    case True
    then have "peek_at (consume a lx) 0 \<noteq> 0" unfolding frac_def sw by simp
    then have "snd (advance (consume a lx)) = consume (a + 1) lx" by (simp add: advance_peek)
    then show ?thesis
      unfolding lx2_def c1 c2 b_def using True by (simp add: digits_loop_consume)
  next
    case False
    then show ?thesis unfolding lx2_def c1 c2 b_def by simp
  qed
  have c4: "(peek_at lx2 0 = rn CHR ''e'' \<or> peek_at lx2 0 = rn CHR ''E'') = hasE"
    unfolding c3 hasE_def sw by simp
  have bb: "lx_i lx + b < lx_length lx" if hasE
    using that peek_at_nonzero [of lx b] unfolding hasE_def sw by auto
  have c5: "lx4 = consume s lx" if hasE
  proof -
    have "peek_at (consume b lx) 0 \<noteq> 0" using that unfolding hasE_def sw by auto
    then have l3: "lx3 = consume (b + 1) lx" unfolding lx3_def c3 by (simp add: advance_peek)
    show ?thesis
    proof (cases "starts_with (drop (b + 1) ?t) (\<lambda>ch. ch = rn CHR ''+'' \<or> ch = rn CHR ''-'')")
      case True
      then have "peek_at (consume (b + 1) lx) 0 \<noteq> 0" unfolding sw by auto
      then have "snd (advance (consume (b + 1) lx)) = consume (b + 2) lx" by (simp add: advance_peek)
      then show ?thesis unfolding lx4_def l3 s_def using True unfolding sw by simp
    next
      case False
      then show ?thesis unfolding lx4_def l3 s_def unfolding sw by simp
    qed
  qed
  have sb: "lx_i lx + s \<le> lx_length lx" if hasE
  proof (cases "starts_with (drop (b + 1) ?t) (\<lambda>ch. ch = rn CHR ''+'' \<or> ch = rn CHR ''-'')")
    case True
    then have "peek_at lx (b + 1) \<noteq> 0" unfolding sw by auto
    then show ?thesis using peek_at_nonzero [of lx "b + 1"] True unfolding s_def by simp
  next
    case False
    then show ?thesis using bb [OF that] unfolding s_def by simp
  qed
  have kb: "lx_i lx + k \<le> lx_length lx" if hasE
    using sb [OF that] digit_run_le [of U "drop s ?t"] unfolding k_def by (simp add: lx_length_def)
  have ab: "lx_i lx + a \<le> lx_length lx"
    using digit_run_le [of U ?t] le unfolding a_def by (simp add: lx_length_def)
  have b_le: "lx_i lx + b \<le> lx_length lx"
  proof (cases frac)
    case True
    then have "peek_at lx (a + 1) \<noteq> 0" unfolding frac_def sw using nd by auto
    then have "lx_i lx + (a + 1) < lx_length lx" by (rule peek_at_nonzero)
    then show ?thesis
      using digit_run_le [of U "drop (a + 1) ?t"] True unfolding b_def by (simp add: lx_length_def)
  next
    case False
    then show ?thesis using ab unfolding b_def by simp
  qed
  have nofl: "\<not> frac \<Longrightarrow> \<not> ContainsAny (take b ?t) (gostr ''.eE'')"
    unfolding b_def a_def using digit_run_no_float_mark [of U ?t] by simp
  show ?thesis
  proof (cases hasE)
    case True
    show ?thesis
    proof (cases dig)
      case d: True
      have "scanNumber U lx = scanNumber_finish True ?l ?c (lx_i lx) (consume k lx)"
        unfolding e c4 c5 [OF True] using True d unfolding dig_def sw k_def
        by (simp add: digits_loop_consume)
      then show ?thesis
        unfolding scanNumber_finish_consume [OF kb [OF True]] number_contract_def Let_def ext
        using True d
        by (simp add: token_kind_def digit_text_def rejection_message_def)
    next
      case d: False
      have "scanNumber U lx = Inr (errorAt ?l ?c (gostr ''invalid float exponent'') (consume s lx))"
        unfolding e c4 c5 [OF True] using True d unfolding dig_def sw by simp
      then show ?thesis
        unfolding number_contract_def Let_def ext using True d
        by (simp add: rejection_message_def)
    qed
  next
    case False
    have "scanNumber U lx = scanNumber_finish frac ?l ?c (lx_i lx) (consume b lx)"
      using False c4 unfolding e by (simp add: c2 c3)
    then show ?thesis
      unfolding scanNumber_finish_consume [OF b_le] number_contract_def Let_def ext
      using False nofl
      by (simp add: token_kind_def digit_text_def rejection_message_def)
  qed
qed

lemma scanNumber_meets_contract:
  "lx_i lx \<le> lx_length lx \<Longrightarrow> scanNumber U lx = Inr (number_contract U lx)"
  using prefixed_number_contract decimal_number_contract by blast

text \<open>
  C7. \<^verbatim>\<open>validUnderscores\<close> rejects exactly the texts the rule rejects, and it is the
  predicate that decides every numeric form. \<^verbatim>\<open>scanNumber\<close> consumes the literal
  under the cursor (\<open>number_extent\<close>) and, whatever the form, hexadecimal, binary,
  octal, integer or float, it appends the token of the form when \<^verbatim>\<open>validUnderscores\<close>
  accepts the digit-bearing text and records the error of the form when it rejects it;
  nothing else enters the decision. The one result that does not come from the rule is the
  error of an exponent without a digit, which has no digit-bearing text to decide on.
\<close>

theorem validUnderscores_single_rule:
  "(validUnderscores s \<longleftrightarrow> \<not> rejected_by_rule s) \<and>
   (lx_i lx \<le> lx_length lx \<longrightarrow>
      scanNumber U lx =
        Inr (let t = drop (lx_i lx) (lx_src lx); l = lx_line lx; c = lx_col lx;
                 k = fst (number_extent U t); form = snd (number_extent U t);
                 text = take k t; lx' = consume k lx
             in if form \<noteq> NoExponentDigits \<and> validUnderscores (digit_text form text)
                  then add (token_kind form) text l c None None lx'
                else errorAt l c (rejection_message form) lx'))"
  using validUnderscores_iff [of s] scanNumber_meets_contract [of lx U]
  unfolding number_contract_def by blast

theorem validUnderscores_single_rule_witness:
  "lx_i (NewLexer (gostr ''0x_1 '')) \<le> lx_length (NewLexer (gostr ''0x_1 '')) \<and>
   rejected_by_rule (gostr ''1_.5'') \<and> \<not> validUnderscores (gostr ''1_.5'') \<and>
   scanNumber no_tables (NewLexer (gostr ''0x_1 '')) =
     Inr (errorAt 1 1 (gostr ''invalid hex literal'') (consume 4 (NewLexer (gostr ''0x_1 '')))) \<and>
   scanNumber no_tables (NewLexer (gostr ''1_000.5e+3 x'')) =
     Inr (add FLOAT_LIT (gostr ''1_000.5e+3'') 1 1 None None (consume 10 (NewLexer (gostr ''1_000.5e+3 x''))))"
proof -
  let ?L = "NewLexer (gostr ''0x_1 '')" and ?M = "NewLexer (gostr ''1_000.5e+3 x'')"
  have h: "lx_i ?L \<le> lx_length ?L" "lx_i ?M \<le> lx_length ?M" by code_simp+
  have r: "rejected_by_rule (gostr ''1_.5'')" by code_simp
  have e: "number_extent no_tables (drop (lx_i ?L) (lx_src ?L)) = (4, Hex)" by code_simp
  have v: "\<not> validUnderscores (digit_text Hex (take 4 (drop (lx_i ?L) (lx_src ?L))))" by code_simp
  have p: "lx_line ?L = 1" "lx_col ?L = 1" "lx_line ?M = 1" "lx_col ?M = 1" by code_simp+
  have m: "rejection_message Hex = gostr ''invalid hex literal''" "token_kind Float = FLOAT_LIT"
    by code_simp+
  have e': "number_extent no_tables (drop (lx_i ?M) (lx_src ?M)) = (10, Float)" by code_simp
  have t': "take 10 (drop (lx_i ?M) (lx_src ?M)) = gostr ''1_000.5e+3''" by code_simp
  have v': "validUnderscores (digit_text Float (gostr ''1_000.5e+3''))" by code_simp
  have one: "scanNumber no_tables ?L = Inr (errorAt 1 1 (gostr ''invalid hex literal'') (consume 4 ?L))"
    using validUnderscores_single_rule [of "gostr ''1_.5''" ?L no_tables] h(1)
    unfolding Let_def e fst_conv snd_conv using v p m by simp
  have two: "scanNumber no_tables ?M =
      Inr (add FLOAT_LIT (gostr ''1_000.5e+3'') 1 1 None None (consume 10 ?M))"
    using validUnderscores_single_rule [of "gostr ''1_.5''" ?M no_tables] h(2)
    unfolding Let_def e' fst_conv snd_conv t' using v' p m by simp
  show ?thesis
    using validUnderscores_single_rule [of "gostr ''1_.5''" ?L no_tables] h(1) r one two by blast
qed

subsection \<open>C9: positions and spans\<close>

text \<open>
  \<open>pos_at rs n\<close> is the line and column of the code point at index \<open>n\<close> of the input:
  the position reached from line 1, column 1 over the first \<open>n\<close> code points.
  \<open>token_at rs t (s, e)\<close>: the token \<open>t\<close> sits on the span from index \<open>s\<close> to
  index \<open>e\<close> of the input, its lexeme is the text of the span and its line and column
  are those of index \<open>s\<close>. \<open>error_at rs e s\<close>: the error text \<open>e\<close> starts with
  "lexical error at l:c: " where \<open>(l, c)\<close> is the position of index \<open>s\<close>.
\<close>

definition pos_at :: "rune list \<Rightarrow> nat \<Rightarrow> nat \<times> nat" where
  "pos_at rs n = pos_after (1, 1) (take n rs)"


definition token_at :: "rune list \<Rightarrow> Token \<Rightarrow> nat \<times> nat \<Rightarrow> bool" where
  "token_at rs t sp \<longleftrightarrow>
     fst sp < snd sp \<and> snd sp \<le> length rs
     \<and> Lexeme t = take (snd sp - fst sp) (drop (fst sp) rs)
     \<and> Line t = fst (pos_at rs (fst sp)) \<and> Column t = snd (pos_at rs (fst sp))"

definition error_at :: "rune list \<Rightarrow> gostring \<Rightarrow> nat \<Rightarrow> bool" where
  "error_at rs e s \<longleftrightarrow>
     s < length rs \<and> prefix (Sprintf_error (fst (pos_at rs s)) (snd (pos_at rs s)) []) e"

definition disjoint_in_order :: "(nat \<times> nat) list \<Rightarrow> bool" where
  "disjoint_in_order spans = sorted_wrt (\<lambda>a b. snd a \<le> fst b) spans"

text \<open>
  The invariant of a run on the input \<open>rs\<close>: the position of the lexer is the position
  of its cursor in \<open>rs\<close>, the tokens sit on disjoint spans in source order that end at
  or before the cursor, and the errors are positioned at increasing indices before the
  cursor.
\<close>

definition toks_inv :: "rune list \<Rightarrow> Lexer \<Rightarrow> bool" where
  "toks_inv rs lx \<longleftrightarrow>
     (\<exists>spans. list_all2 (token_at rs) (lx_tokens lx) spans \<and> disjoint_in_order spans
             \<and> list_all (\<lambda>sp. snd sp \<le> lx_i lx) spans)"

definition errs_inv :: "rune list \<Rightarrow> Lexer \<Rightarrow> bool" where
  "errs_inv rs lx \<longleftrightarrow>
     (\<exists>starts. list_all2 (error_at rs) (lx_errors lx) starts \<and> sorted_wrt (<) starts
             \<and> list_all (\<lambda>s. s < lx_i lx) starts)"

definition run_inv :: "rune list \<Rightarrow> Lexer \<Rightarrow> bool" where
  "run_inv rs lx \<longleftrightarrow>
     lx_src lx = rs \<and> lx_i lx \<le> length rs \<and> (lx_line lx, lx_col lx) = pos_at rs (lx_i lx)
     \<and> toks_inv rs lx \<and> errs_inv rs lx"

lemma pos_at_add: "pos_at rs (i + k) = pos_after (pos_at rs i) (take k (drop i rs))"
  by (simp add: pos_at_def pos_after_def take_add)





lemma Sprintf_error_prefix: "prefix (Sprintf_error l c []) (Sprintf_error l c msg)"
  by (simp add: Sprintf_error_def prefix_def)

lemma toks_inv_mono:
  "toks_inv rs lx \<Longrightarrow> lx_tokens lx' = lx_tokens lx \<Longrightarrow> lx_i lx \<le> lx_i lx' \<Longrightarrow> toks_inv rs lx'"
  unfolding toks_inv_def list_all_iff by (metis order_trans)

lemma errs_inv_mono:
  "errs_inv rs lx \<Longrightarrow> lx_errors lx' = lx_errors lx \<Longrightarrow> lx_i lx \<le> lx_i lx' \<Longrightarrow> errs_inv rs lx'"
  unfolding errs_inv_def list_all_iff by (metis less_le_trans)

lemma toks_inv_add:
  assumes "toks_inv rs lx" "lx_tokens lx' = lx_tokens lx @ [t]" "token_at rs t (lx_i lx, lx_i lx')"
  shows "toks_inv rs lx'"
proof -
  from assms(1) obtain spans where s: "list_all2 (token_at rs) (lx_tokens lx) spans"
    "disjoint_in_order spans" "list_all (\<lambda>sp. snd sp \<le> lx_i lx) spans"
    unfolding toks_inv_def by blast
  have le: "lx_i lx \<le> lx_i lx'" using assms(3) by (simp add: token_at_def)
  have "list_all2 (token_at rs) (lx_tokens lx') (spans @ [(lx_i lx, lx_i lx')])"
    unfolding assms(2) using s(1) assms(3) by (intro list_all2_appendI) simp_all
  moreover have "disjoint_in_order (spans @ [(lx_i lx, lx_i lx')])"
    using s(2,3) unfolding disjoint_in_order_def by (simp add: sorted_wrt_append list_all_iff)
  moreover have "list_all (\<lambda>sp. snd sp \<le> lx_i lx') (spans @ [(lx_i lx, lx_i lx')])"
    using s(3) le by (auto simp: list_all_iff)
  ultimately show ?thesis unfolding toks_inv_def by blast
qed

lemma errs_inv_add:
  assumes "errs_inv rs lx" "lx_errors lx' = lx_errors lx @ [e]" "error_at rs e s"
    "lx_i lx \<le> s" "s < lx_i lx'"
  shows "errs_inv rs lx'"
proof -
  from assms(1) obtain starts where s: "list_all2 (error_at rs) (lx_errors lx) starts"
    "sorted_wrt (<) starts" "list_all (\<lambda>s. s < lx_i lx) starts"
    unfolding errs_inv_def by blast
  have "list_all2 (error_at rs) (lx_errors lx') (starts @ [s])"
    unfolding assms(2) using s(1) assms(3) by (intro list_all2_appendI) simp_all
  moreover have "sorted_wrt (<) (starts @ [s])"
    using s(2,3) assms(4) by (auto simp: sorted_wrt_append list_all_iff)
  moreover have "list_all (\<lambda>s. s < lx_i lx') (starts @ [s])"
    using s(3) assms(4,5) by (auto simp: list_all_iff)
  ultimately show ?thesis unfolding errs_inv_def by blast
qed

lemma run_inv_init: "run_inv rs (NewLexer rs)"
  unfolding run_inv_def toks_inv_def errs_inv_def
  by (simp add: NewLexer_def pos_at_def pos_after_def disjoint_in_order_def)

lemma run_inv_moved:
  assumes "run_inv rs lx" "moved lx lx'"
  shows "run_inv rs lx'"
proof -
  from assms(2) obtain k where k: "k = 0 \<or> lx_i lx + k \<le> lx_length lx" "lx' = consume k lx"
    unfolding moved_def by blast
  have le: "lx_i lx + k \<le> length rs"
    using k(1) assms(1) by (auto simp: run_inv_def lx_length_def)
  have pos: "(lx_line lx', lx_col lx') = pos_at rs (lx_i lx + k)"
    using assms(1) unfolding k(2) run_inv_def pos_at_add
    by (metis consume_def fst_conv snd_conv prod.collapse Lexer.select_convs(3,4) Lexer.surjective Lexer.update_convs(2,3,4))
  have "toks_inv rs lx'" "errs_inv rs lx'"
    using assms(1) toks_inv_mono [of rs lx lx'] errs_inv_mono [of rs lx lx']
    unfolding run_inv_def k(2) by simp_all
  then show ?thesis
    using assms(1) le pos unfolding run_inv_def k(2) by simp
qed

lemma run_inv_token:
  assumes inv: "run_inv rs lx" and b: "built [] lx b' lx'" and i: "lx_i lx < lx_i lx'"
  shows "run_inv rs (add tt b' (lx_line lx) (lx_col lx) None None lx')"
proof -
  let ?r = "add tt b' (lx_line lx) (lx_col lx) None None lx'"
  have inv': "run_inv rs lx'" using run_inv_moved [OF inv built_moved [OF b]] .
  from b i obtain k where k: "lx_i lx + k \<le> lx_length lx" "lx' = consume k lx"
    "b' = take k (drop (lx_i lx) (lx_src lx))"
    unfolding built_def by auto
  have src: "lx_src lx = rs" and pos: "(lx_line lx, lx_col lx) = pos_at rs (lx_i lx)"
    using inv by (simp_all add: run_inv_def)
  have "token_at rs \<lparr>Type = tt, Lexeme = b', Line = lx_line lx, Column = lx_col lx,
          IntVal = None, FloatVal = None\<rparr> (lx_i lx, lx_i ?r)"
    using k i src pos [symmetric] inv' by (simp add: token_at_def run_inv_def)
  moreover have "lx_tokens ?r = lx_tokens lx @ [\<lparr>Type = tt, Lexeme = b', Line = lx_line lx,
          Column = lx_col lx, IntVal = None, FloatVal = None\<rparr>]"
    using k(2) by (simp add: add_def)
  ultimately have "toks_inv rs ?r"
    using toks_inv_add [of rs lx ?r] inv by (simp add: run_inv_def)
  moreover have "errs_inv rs ?r"
    using errs_inv_mono [of rs lx' ?r] inv' by (simp add: run_inv_def)
  ultimately show ?thesis using inv' by (simp add: run_inv_def)
qed

lemma run_inv_error:
  assumes inv: "run_inv rs lx" and m0: "moved lx lx0" and m: "moved lx0 lx'" and i: "lx_i lx0 < lx_i lx'"
  shows "run_inv rs (errorAt (lx_line lx0) (lx_col lx0) msg lx')"
proof -
  let ?r = "errorAt (lx_line lx0) (lx_col lx0) msg lx'"
  have inv0: "run_inv rs lx0" using run_inv_moved [OF inv m0] .
  have inv': "run_inv rs lx'" using run_inv_moved [OF inv0 m] .
  have pos: "lx_line lx0 = fst (pos_at rs (lx_i lx0))" "lx_col lx0 = snd (pos_at rs (lx_i lx0))"
    using inv0 by (simp_all add: run_inv_def prod_eq_iff)
  have "error_at rs (Sprintf_error (lx_line lx0) (lx_col lx0) msg) (lx_i lx0)"
    using i inv' pos by (simp add: error_at_def run_inv_def Sprintf_error_prefix)
  moreover have "lx_errors ?r = lx_errors lx @ [Sprintf_error (lx_line lx0) (lx_col lx0) msg]"
    using moved_D [OF m0] moved_D [OF m] by (simp add: errorAt_def)
  ultimately have "errs_inv rs ?r"
    using errs_inv_add [of rs lx ?r _ "lx_i lx0"] inv moved_D [OF m0] i by (simp add: run_inv_def)
  moreover have "toks_inv rs ?r"
    using toks_inv_mono [of rs lx' ?r] inv' by (simp add: run_inv_def)
  ultimately show ?thesis using inv' by (simp add: run_inv_def)
qed

lemma run_inv_attempt: "run_inv rs lx \<Longrightarrow> attempt lx r \<Longrightarrow> run_inv rs r"
  unfolding attempt_def outcome_def
  using run_inv_token run_inv_error [OF _ moved_refl built_moved] by fastforce

lemma run_inv_trivia: "run_inv rs lx \<Longrightarrow> trivia lx r \<Longrightarrow> run_inv rs r"
  unfolding trivia_def
  using run_inv_moved run_inv_error by fastforce

lemma run_inv_nextToken:
  assumes "run_inv rs lx" "nextToken U lx = Inr (go, r)"
  shows "run_inv rs r"
proof -
  have t: "run_inv rs (skipWSAndComments lx)"
    using run_inv_trivia [OF assms(1) skipWSAndComments_trivia] .
  from nextToken_step [of lx U] assms(2) show ?thesis
    using t run_inv_attempt by auto
qed

lemma run_inv_LexAll_loop: "run_inv rs lx \<Longrightarrow> LexAll_loop U lx = Inr r \<Longrightarrow> run_inv rs r"
proof (induction U lx rule: LexAll_loop.induct)
  case (1 U lx)
  from nextToken_step [of lx U] obtain go r' where n: "nextToken U lx = Inr (go, r')" by auto
  have inv': "run_inv rs r'" using run_inv_nextToken [OF "1.prems"(1) n] .
  show ?case
  proof (cases go)
    case True
    then have "LexAll_loop U lx = LexAll_loop U r'" using n by (subst LexAll_loop.simps) simp
    then show ?thesis using "1.IH" [OF n] True inv' "1.prems"(2) by simp
  next
    case False
    then have "LexAll_loop U lx = Inr r'" using n by (subst LexAll_loop.simps) simp
    then show ?thesis using inv' "1.prems"(2) by simp
  qed
qed


text \<open>
  What the trivia before a token is, as one pass over the text under the cursor. Outside
  a comment, whitespace is passed over, \<^verbatim>\<open>//\<close> opens a line comment and \<^verbatim>\<open>/*\<close> a
  block comment, and anything else ends the trivia. A line comment runs through the first
  newline or U+0000. Block comments nest; the outermost one ends at the \<^verbatim>\<open>*/\<close> that
  closes it, and it is unterminated when the end of the text or a U+0000 comes first.
  \<open>Stops k\<close>: the trivia is the first \<open>k\<close> code points. \<open>Unterminated s k\<close>: a block
  comment that is not closed opens at offset \<open>s\<close>, and the end value is met at offset
  \<open>k\<close>.
\<close>

definition is_space :: "rune \<Rightarrow> bool" where
  "is_space ch \<longleftrightarrow> ch = rn CHR '' '' \<or> ch = rn CHR 0x09 \<or> ch = rn CHR 0x0D \<or> ch = rn CHR 0x0A"

datatype skip_mode = Outside | InLine | InBlock nat nat

datatype skip_end = Stops nat | Unterminated nat nat

fun skip_scan :: "skip_mode \<Rightarrow> nat \<Rightarrow> rune list \<Rightarrow> skip_end" where
  "skip_scan m k [] = (case m of InBlock d s \<Rightarrow> Unterminated s k | _ \<Rightarrow> Stops k)"
| "skip_scan Outside k (x # xs) =
     (if is_space x then skip_scan Outside (k + 1) xs
      else if x = rn CHR ''/'' then
        (case xs of
           [] \<Rightarrow> Stops k
         | y # ys \<Rightarrow>
             if y = rn CHR ''/'' then skip_scan InLine (k + 2) ys
             else if y = rn CHR ''*'' then skip_scan (InBlock 1 k) (k + 2) ys
             else Stops k)
      else Stops k)"
| "skip_scan InLine k (x # xs) =
     (if x = rn CHR 0x0A \<or> x = 0 then skip_scan Outside (k + 1) xs else skip_scan InLine (k + 1) xs)"
| "skip_scan (InBlock d s) k (x # xs) =
     (if x = 0 then Unterminated s k
      else
        (case xs of
           [] \<Rightarrow> skip_scan (InBlock d s) (k + 1) xs
         | y # ys \<Rightarrow>
             if x = rn CHR ''/'' \<and> y = rn CHR ''*'' then skip_scan (InBlock (d + 1) s) (k + 2) ys
             else if x = rn CHR ''*'' \<and> y = rn CHR ''/'' then
               (if d \<le> 1 then skip_scan Outside (k + 2) ys else skip_scan (InBlock (d - 1) s) (k + 2) ys)
             else skip_scan (InBlock d s) (k + 1) xs))"

text \<open>
  The lexer after the skipper, for each result of the pass: the cursor is moved over the
  trivia; an unterminated comment is recorded at the line and column the lexer has at the
  opening slash.
\<close>

definition skipped :: "Lexer \<Rightarrow> skip_end \<Rightarrow> Lexer" where
  "skipped lx e =
     (case e of
        Stops k \<Rightarrow> consume k lx
      | Unterminated s k \<Rightarrow>
          errorAt (lx_line (consume s lx)) (lx_col (consume s lx)) (gostr ''unterminated block comment'')
            (consume k lx))"

lemma under_cursor_cases:
  "drop (lx_i lx) (lx_src lx) = [] \<and> peek_at lx 0 = 0 \<and> lx_length lx \<le> lx_i lx \<or>
   lx_i lx < lx_length lx \<and> drop (lx_i lx) (lx_src lx) = lx_src lx ! lx_i lx # drop (lx_i lx + 1) (lx_src lx)
     \<and> peek_at lx 0 = lx_src lx ! lx_i lx \<and> advance lx = (lx_src lx ! lx_i lx, consume 1 lx)"
  by (cases "lx_i lx < length (lx_src lx)")
     (simp_all add: peek_at_def lx_length_def Cons_nth_drop_Suc advance_in)

lemma lineComment_loop_scan:
  assumes "ch \<noteq> rn CHR 0x0A" "ch \<noteq> 0"
  shows "\<exists>n. lineComment_loop ch lx = consume n lx \<and>
      (\<forall>k. skip_scan InLine k (drop (lx_i lx) (lx_src lx)) =
           skip_scan Outside (k + n) (drop (lx_i lx + n) (lx_src lx)))"
  using assms
proof (induction ch lx rule: lineComment_loop.induct)
  case (1 ch lx)
  from under_cursor_cases [of lx] show ?case
  proof
    assume a: "drop (lx_i lx) (lx_src lx) = [] \<and> peek_at lx 0 = 0 \<and> lx_length lx \<le> lx_i lx"
    then have "advance lx = (0, lx)" by (simp add: advance_end)
    then have "lineComment_loop ch lx = lineComment_loop 0 lx"
      using "1.prems" by (subst lineComment_loop.simps) simp
    then have "lineComment_loop ch lx = consume 0 lx"
      by (simp add: lineComment_loop.simps [of 0])
    then show ?thesis using a by (intro exI [of _ 0]) simp
  next
    assume a: "lx_i lx < lx_length lx \<and> drop (lx_i lx) (lx_src lx) = lx_src lx ! lx_i lx # drop (lx_i lx + 1) (lx_src lx)
     \<and> peek_at lx 0 = lx_src lx ! lx_i lx \<and> advance lx = (lx_src lx ! lx_i lx, consume 1 lx)"
    let ?x = "lx_src lx ! lx_i lx"
    have e: "lineComment_loop ch lx = lineComment_loop ?x (consume 1 lx)"
      using "1.prems" a by (subst lineComment_loop.simps) simp
    show ?thesis
    proof (cases "?x = rn CHR 0x0A \<or> ?x = 0")
      case True
      then have "lineComment_loop ch lx = consume 1 lx"
        unfolding e by (subst lineComment_loop.simps) auto
      then show ?thesis using a True by (intro exI [of _ 1]) auto
    next
      case False
      have adv: "advance lx = (?x, consume 1 lx)" using a by simp
      from "1.IH" [OF _ adv [symmetric]] "1.prems" False
      obtain n where n: "lineComment_loop ?x (consume 1 lx) = consume n (consume 1 lx)"
        "\<forall>k. skip_scan InLine k (drop (lx_i (consume 1 lx)) (lx_src (consume 1 lx))) =
           skip_scan Outside (k + n) (drop (lx_i (consume 1 lx) + n) (lx_src (consume 1 lx)))"
        by auto
      have "lineComment_loop ch lx = consume (n + 1) lx" unfolding e n(1) by (simp add: add.commute)
      moreover have "\<forall>k. skip_scan InLine k (drop (lx_i lx) (lx_src lx)) =
           skip_scan Outside (k + (n + 1)) (drop (lx_i lx + (n + 1)) (lx_src lx))"
      proof
        fix k
        have "skip_scan InLine k (drop (lx_i lx) (lx_src lx)) = skip_scan InLine (k + 1) (drop (lx_i lx + 1) (lx_src lx))"
          using a False by simp
        also have "\<dots> = skip_scan Outside (k + 1 + n) (drop (lx_i lx + 1 + n) (lx_src lx))"
          using n(2) [rule_format, of "k + 1"] by simp
        finally show "skip_scan InLine k (drop (lx_i lx) (lx_src lx)) =
           skip_scan Outside (k + (n + 1)) (drop (lx_i lx + (n + 1)) (lx_src lx))"
          by (simp add: add.commute add.left_commute)
      qed
      ultimately show ?thesis by blast
    qed
  qed
qed

lemma rest_cases:
  "drop (lx_i lx + 1) (lx_src lx) = [] \<and> peek_at lx 1 = 0 \<or>
   drop (lx_i lx + 1) (lx_src lx) = peek_at lx 1 # drop (lx_i lx + 2) (lx_src lx)"
  using drop_peek_cases [of "consume 1 lx"] by simp

lemma text_cases:
  "drop (lx_i lx) (lx_src lx) = [] \<and> peek_at lx 0 = 0 \<or>
   drop (lx_i lx) (lx_src lx) = peek_at lx 0 # drop (lx_i lx + 1) (lx_src lx)"
  using drop_peek_cases [of lx] by simp

lemma skip_scan_Outside_peek:
  "skip_scan Outside k (drop (lx_i lx) (lx_src lx)) =
     (if is_space (peek_at lx 0) then skip_scan Outside (k + 1) (drop (lx_i lx + 1) (lx_src lx))
      else if peek_at lx 0 = rn CHR ''/'' \<and> peek_at lx 1 = rn CHR ''/''
        then skip_scan InLine (k + 2) (drop (lx_i lx + 2) (lx_src lx))
      else if peek_at lx 0 = rn CHR ''/'' \<and> peek_at lx 1 = rn CHR ''*''
        then skip_scan (InBlock 1 k) (k + 2) (drop (lx_i lx + 2) (lx_src lx))
      else Stops k)"
  using text_cases [of lx] rest_cases [of lx]
  by (auto simp: is_space_def)

lemma skip_scan_InBlock_peek:
  "skip_scan (InBlock d s) k (drop (lx_i lx) (lx_src lx)) =
     (if peek_at lx 0 = 0 then Unterminated s k
      else if peek_at lx 0 = rn CHR ''/'' \<and> peek_at lx 1 = rn CHR ''*''
        then skip_scan (InBlock (d + 1) s) (k + 2) (drop (lx_i lx + 2) (lx_src lx))
      else if peek_at lx 0 = rn CHR ''*'' \<and> peek_at lx 1 = rn CHR ''/''
        then (if d \<le> 1 then skip_scan Outside (k + 2) (drop (lx_i lx + 2) (lx_src lx))
              else skip_scan (InBlock (d - 1) s) (k + 2) (drop (lx_i lx + 2) (lx_src lx)))
      else skip_scan (InBlock d s) (k + 1) (drop (lx_i lx + 1) (lx_src lx)))"
  using text_cases [of lx] rest_cases [of lx]
  by auto

lemma advance2:
  "peek_at lx 0 \<noteq> 0 \<Longrightarrow> peek_at lx 1 \<noteq> 0 \<Longrightarrow> snd (advance (snd (advance lx))) = consume 2 lx"
  by (simp add: advance_peek numeral_2_eq_2)

lemma blockComment_loop_scan:
  assumes "0 < d"
  shows "\<exists>n ret. blockComment_loop l c d lx =
            (ret, if ret then errorAt l c (gostr ''unterminated block comment'') (consume n lx)
                  else consume n lx)
          \<and> (\<forall>s k. skip_scan (InBlock (nat d) s) k (drop (lx_i lx) (lx_src lx)) =
                (if ret then Unterminated s (k + n)
                 else skip_scan Outside (k + n) (drop (lx_i lx + n) (lx_src lx))))"
  using assms
proof (induction l c d lx rule: blockComment_loop.induct)
  case (1 l c d lx)
  let ?msg = "gostr ''unterminated block comment''"
  let ?t = "drop (lx_i lx) (lx_src lx)"
  have d: "d > 0" by (rule "1.prems")
  have step: "\<exists>n ret. blockComment_loop l c d lx =
            (ret, if ret then errorAt l c ?msg (consume n lx) else consume n lx)
          \<and> (\<forall>s k. skip_scan (InBlock (nat d) s) k ?t =
                (if ret then Unterminated s (k + n)
                 else skip_scan Outside (k + n) (drop (lx_i lx + n) (lx_src lx))))"
    if eq: "blockComment_loop l c d lx = blockComment_loop l c d' (consume m lx)"
      and sp: "\<And>s k. skip_scan (InBlock (nat d) s) k ?t =
                 skip_scan (InBlock (nat d') s) (k + m) (drop (lx_i lx + m) (lx_src lx))"
      and ih: "\<exists>n ret. blockComment_loop l c d' (consume m lx) =
            (ret, if ret then errorAt l c ?msg (consume n (consume m lx)) else consume n (consume m lx))
          \<and> (\<forall>s k. skip_scan (InBlock (nat d') s) k (drop (lx_i (consume m lx)) (lx_src (consume m lx))) =
                (if ret then Unterminated s (k + n)
                 else skip_scan Outside (k + n) (drop (lx_i (consume m lx) + n) (lx_src (consume m lx)))))"
    for d' m
  proof -
    from ih obtain n ret where n: "blockComment_loop l c d' (consume m lx) =
            (ret, if ret then errorAt l c ?msg (consume n (consume m lx)) else consume n (consume m lx))"
      and s: "\<And>s k. skip_scan (InBlock (nat d') s) k (drop (lx_i (consume m lx)) (lx_src (consume m lx))) =
                (if ret then Unterminated s (k + n)
                 else skip_scan Outside (k + n) (drop (lx_i (consume m lx) + n) (lx_src (consume m lx))))"
      by blast
    have "blockComment_loop l c d lx =
            (ret, if ret then errorAt l c ?msg (consume (m + n) lx) else consume (m + n) lx)"
      unfolding eq n by simp
    moreover have "skip_scan (InBlock (nat d) s) k ?t =
                (if ret then Unterminated s (k + (m + n))
                 else skip_scan Outside (k + (m + n)) (drop (lx_i lx + (m + n)) (lx_src lx)))" for s k
      unfolding sp using s [of s "k + m"] by (simp add: add.assoc)
    ultimately show ?thesis by blast
  qed
  consider (eof) "peek_at lx 0 = 0"
    | (opn) "peek_at lx 0 \<noteq> 0" "peek_at lx 0 = rn CHR ''/'' \<and> peek_at lx 1 = rn CHR ''*''"
    | (cls) "peek_at lx 0 \<noteq> 0" "\<not> (peek_at lx 0 = rn CHR ''/'' \<and> peek_at lx 1 = rn CHR ''*'')"
            "peek_at lx 0 = rn CHR ''*'' \<and> peek_at lx 1 = rn CHR ''/''"
    | (oth) "peek_at lx 0 \<noteq> 0" "\<not> (peek_at lx 0 = rn CHR ''/'' \<and> peek_at lx 1 = rn CHR ''*'')"
            "\<not> (peek_at lx 0 = rn CHR ''*'' \<and> peek_at lx 1 = rn CHR ''/'')"
    by blast
  then show ?case
  proof cases
    case eof
    have "blockComment_loop l c d lx = (True, if True then errorAt l c ?msg (consume 0 lx) else consume 0 lx)"
      using d eof by (subst blockComment_loop.simps) (simp add: Let_def)
    moreover have "\<forall>s k. skip_scan (InBlock (nat d) s) k ?t =
        (if True then Unterminated s (k + 0) else skip_scan Outside (k + 0) (drop (lx_i lx + 0) (lx_src lx)))"
      using eof by (simp add: skip_scan_InBlock_peek)
    ultimately show ?thesis by blast
  next
    case opn
    have a2: "snd (advance (snd (advance lx))) = consume 2 lx" using opn by (intro advance2) auto
    have eq: "blockComment_loop l c d lx = blockComment_loop l c (d + 1) (consume 2 lx)"
      using d opn a2 by (subst blockComment_loop.simps) (simp add: Let_def)
    have sp: "skip_scan (InBlock (nat d) s) k ?t =
        skip_scan (InBlock (nat (d + 1)) s) (k + 2) (drop (lx_i lx + 2) (lx_src lx))" for s k
      using opn d by (subst skip_scan_InBlock_peek) (simp add: nat_add_distrib)
    have d1: "0 < d + 1" using d by simp
    show ?thesis
      by (rule step [OF eq sp "1.IH"(1) [OF d refl opn(1) opn(2) d1, unfolded a2]])
  next
    case cls
    have a2: "snd (advance (snd (advance lx))) = consume 2 lx" using cls by (intro advance2) auto
    have eq: "blockComment_loop l c d lx = blockComment_loop l c (d - 1) (consume 2 lx)"
      using d cls a2 by (subst blockComment_loop.simps) (simp add: Let_def)
    show ?thesis
    proof (cases "d = 1")
      case True
      have "blockComment_loop l c d lx = (False, if False then errorAt l c ?msg (consume 2 lx) else consume 2 lx)"
        unfolding eq using True by (subst blockComment_loop.simps) simp
      moreover have "\<forall>s k. skip_scan (InBlock (nat d) s) k ?t =
        (if False then Unterminated s (k + 2) else skip_scan Outside (k + 2) (drop (lx_i lx + 2) (lx_src lx)))"
        using cls True by (subst skip_scan_InBlock_peek) simp
      ultimately show ?thesis by blast
    next
      case False
      then have d1: "0 < d - 1" using d by simp
      have nle: "\<not> nat d \<le> 1" using d False by simp
      have sp: "skip_scan (InBlock (nat d) s) k ?t =
        skip_scan (InBlock (nat (d - 1)) s) (k + 2) (drop (lx_i lx + 2) (lx_src lx))" for s k
        using cls nle d by (subst skip_scan_InBlock_peek) (simp add: nat_diff_distrib)
      show ?thesis
        by (rule step [OF eq sp "1.IH"(2) [OF d refl cls(1) cls(2) cls(3) d1, unfolded a2]])
    qed
  next
    case oth
    have a1: "snd (advance lx) = consume 1 lx" using oth by (simp add: advance_peek)
    have eq: "blockComment_loop l c d lx = blockComment_loop l c d (consume 1 lx)"
      using d oth a1 by (subst blockComment_loop.simps) (auto simp: Let_def)
    have sp: "skip_scan (InBlock (nat d) s) k ?t =
        skip_scan (InBlock (nat d) s) (k + 1) (drop (lx_i lx + 1) (lx_src lx))" for s k
      using oth by (subst skip_scan_InBlock_peek) auto
    show ?thesis
      by (rule step [OF eq sp "1.IH"(3) [OF d refl oth(1) oth(2) oth(3) d, unfolded a1]])
  qed
qed

lemma skipWSAndComments_scan_from:
  "lx = consume k base \<Longrightarrow>
   skipWSAndComments lx = skipped base (skip_scan Outside k (drop (lx_i lx) (lx_src lx)))"
proof (induction lx arbitrary: k rule: skipWSAndComments.induct)
  case (1 lx)
  let ?ch = "peek_at lx 0"
  let ?t = "drop (lx_i lx) (lx_src lx)"
  let ?ws = "?ch = rn CHR '' '' \<or> ?ch = rn CHR 0x09 \<or> ?ch = rn CHR 0x0D \<or> ?ch = rn CHR 0x0A"
  let ?lx2 = "snd (advance (snd (advance lx)))"
  note lx = "1.prems"
  consider (ws) ?ws
    | (line) "\<not> ?ws" "?ch = rn CHR ''/''" "peek_at lx 1 = rn CHR ''/''"
    | (block) "\<not> ?ws" "?ch = rn CHR ''/''" "peek_at lx 1 \<noteq> rn CHR ''/''" "peek_at lx 1 = rn CHR ''*''"
    | (none) "\<not> ?ws" "?ch = rn CHR ''/'' \<longrightarrow> peek_at lx 1 \<noteq> rn CHR ''/'' \<and> peek_at lx 1 \<noteq> rn CHR ''*''"
    by blast
  then show ?case
  proof cases
    case ws
    then have nz: "?ch \<noteq> 0" by auto
    have a1: "snd (advance lx) = consume (k + 1) base" using nz lx by (simp add: advance_peek)
    have e: "skipWSAndComments lx = skipWSAndComments (snd (advance lx))"
      using ws by (subst skipWSAndComments.simps) (simp add: Let_def)
    have sp: "skip_scan Outside k ?t = skip_scan Outside (k + 1) (drop (lx_i lx + 1) (lx_src lx))"
      using ws by (subst skip_scan_Outside_peek) (simp add: is_space_def)
    show ?thesis
      unfolding e sp using "1.IH"(1) [OF refl ws a1] a1 lx by simp
  next
    case line
    have nz: "?ch \<noteq> 0" "peek_at lx 1 \<noteq> 0" using line by auto
    have e: "skipWSAndComments lx = skipWSAndComments (lineComment_loop ?ch lx)"
      using line by (subst skipWSAndComments.simps) (simp add: Let_def)
    have l1: "lineComment_loop ?ch lx = lineComment_loop ?ch (consume 1 lx)"
      using line nz by (subst lineComment_loop.simps) (simp add: advance_peek)
    have l2: "lineComment_loop ?ch (consume 1 lx) = lineComment_loop (rn CHR ''/'') (consume 2 lx)"
      using line nz advance_peek [of "consume 1 lx"]
      by (subst lineComment_loop.simps) (simp add: numeral_2_eq_2)
    obtain n where n: "lineComment_loop (rn CHR ''/'') (consume 2 lx) = consume n (consume 2 lx)"
      "\<And>k. skip_scan InLine k (drop (lx_i (consume 2 lx)) (lx_src (consume 2 lx))) =
           skip_scan Outside (k + n) (drop (lx_i (consume 2 lx) + n) (lx_src (consume 2 lx)))"
      using lineComment_loop_scan [of "rn CHR ''/''" "consume 2 lx"] by auto
    have r0: "lineComment_loop ?ch lx = consume (2 + n) lx"
      unfolding l1 l2 n(1) by simp
    have r: "lineComment_loop ?ch lx = consume (k + 2 + n) base"
      unfolding r0 by (subst lx) (simp add: add.assoc)
    have sp: "skip_scan Outside k ?t = skip_scan Outside (k + 2 + n) (drop (lx_i lx + 2 + n) (lx_src lx))"
      using line n(2) [of "k + 2"] by (subst skip_scan_Outside_peek) (simp add: is_space_def)
    have "skipWSAndComments (lineComment_loop ?ch lx) =
        skipped base (skip_scan Outside (k + 2 + n)
          (drop (lx_i (lineComment_loop ?ch lx)) (lx_src (lineComment_loop ?ch lx))))"
      by (rule "1.IH"(2) [OF refl line(1,2) refl line(3) r])
    moreover have "drop (lx_i (lineComment_loop ?ch lx)) (lx_src (lineComment_loop ?ch lx)) =
        drop (lx_i lx + 2 + n) (lx_src lx)"
      unfolding l1 l2 n(1) by (simp add: add.assoc)
    ultimately show ?thesis unfolding e sp by simp
  next
    case block
    obtain returned lx3 where bl: "blockComment_loop (lx_line lx) (lx_col lx) 1 ?lx2 = (returned, lx3)"
      by (cases "blockComment_loop (lx_line lx) (lx_col lx) 1 ?lx2")
    have e: "skipWSAndComments lx = (if returned then lx3 else skipWSAndComments lx3)"
      using block bl by (subst skipWSAndComments.simps) (simp add: Let_def)
    have nz: "peek_at lx 0 \<noteq> 0" "peek_at lx 1 \<noteq> 0" using block by auto
    have lx2: "?lx2 = consume 2 lx" using nz by (rule advance2)
    obtain n ret where n: "blockComment_loop (lx_line lx) (lx_col lx) 1 (consume 2 lx) =
            (ret, if ret then errorAt (lx_line lx) (lx_col lx) (gostr ''unterminated block comment'') (consume n (consume 2 lx))
                  else consume n (consume 2 lx))"
      and s: "\<And>s k. skip_scan (InBlock (nat 1) s) k (drop (lx_i (consume 2 lx)) (lx_src (consume 2 lx))) =
                (if ret then Unterminated s (k + n)
                 else skip_scan Outside (k + n) (drop (lx_i (consume 2 lx) + n) (lx_src (consume 2 lx))))"
      using blockComment_loop_scan [of 1 "lx_line lx" "lx_col lx" "consume 2 lx"] by auto
    have ret: "ret = returned" and lx3: "lx3 = (if ret then errorAt (lx_line lx) (lx_col lx) (gostr ''unterminated block comment'') (consume (2 + n) lx)
                  else consume (2 + n) lx)"
    proof -
      have "(returned, lx3) = (ret, if ret then errorAt (lx_line lx) (lx_col lx) (gostr ''unterminated block comment'') (consume n (consume 2 lx))
                  else consume n (consume 2 lx))"
        by (rule trans [OF bl [unfolded lx2, symmetric] n])
      then have a: "returned = ret" and b: "lx3 = (if ret then errorAt (lx_line lx) (lx_col lx) (gostr ''unterminated block comment'') (consume n (consume 2 lx))
                  else consume n (consume 2 lx))"
        by blast+
      show "ret = returned" using a by simp
      show "lx3 = (if ret then errorAt (lx_line lx) (lx_col lx) (gostr ''unterminated block comment'') (consume (2 + n) lx)
                  else consume (2 + n) lx)"
        unfolding b by simp
    qed
    have sp: "skip_scan Outside k ?t =
        (if ret then Unterminated k (k + 2 + n)
         else skip_scan Outside (k + 2 + n) (drop (lx_i lx + 2 + n) (lx_src lx)))"
      using block s [of k "k + 2"] by (subst skip_scan_Outside_peek) (simp add: is_space_def)
    show ?thesis
    proof (cases ret)
      case True
      then show ?thesis
        unfolding e sp lx3 using ret lx by (simp add: skipped_def add.assoc)
    next
      case False
      have r: "lx3 = consume (k + 2 + n) base" unfolding lx3 lx using False by (simp add: add.assoc)
      have nr: "\<not> returned" using False ret by simp
      have "skipWSAndComments lx3 = skipped base (skip_scan Outside (k + 2 + n) (drop (lx_i lx3) (lx_src lx3)))"
        by (rule "1.IH"(3) [OF refl block(1,2) refl block(3,4) refl refl refl bl [symmetric] nr r])
      moreover have "drop (lx_i lx3) (lx_src lx3) = drop (lx_i lx + 2 + n) (lx_src lx)"
        unfolding lx3 using False by (simp add: add.assoc)
      ultimately show ?thesis unfolding e sp using False nr by simp
    qed
  next
    case none
    then have "skipWSAndComments lx = lx"
      by (subst skipWSAndComments.simps) (auto simp: Let_def)
    moreover have "skip_scan Outside k ?t = Stops k"
      using none by (subst skip_scan_Outside_peek) (auto simp: is_space_def)
    ultimately show ?thesis using lx by (simp add: skipped_def)
  qed
qed

lemma skipWSAndComments_scan:
  "skipWSAndComments lx = skipped lx (skip_scan Outside 0 (drop (lx_i lx) (lx_src lx)))"
  using skipWSAndComments_scan_from [of lx 0 lx] by simp

text \<open>\<open>located lx\<close>: the line and column of the lexer are those of the code point under its cursor.\<close>

definition located :: "Lexer \<Rightarrow> bool" where
  "located lx \<longleftrightarrow> (lx_line lx, lx_col lx) = pos_at (lx_src lx) (lx_i lx)"




lemma located_add [simp]: "located (add tt b l c iv fv lx) = located lx"
  by (simp add: located_def)

lemma located_errorAt [simp]: "located (errorAt l c msg lx) = located lx"
  by (simp add: located_def)







subsection \<open>C1: accounting for every code point\<close>

text \<open>
  The lexer discards what it skips. \<open>pieces\<close> follows one run step by step, as
  \<^verbatim>\<open>LexAll\<close> does, and lists in order the text that \<^verbatim>\<open>skipWSAndComments\<close>
  consumed in each step (trivia), the lexeme of the token a scanner appended, and the
  text a scanner consumed when it appended no token (a failed attempt).
  \<open>between a b\<close> is the text between the cursors of two states.
\<close>

datatype piece = Trivia gostring | LexemeOf gostring | Failed gostring

fun piece_text :: "piece \<Rightarrow> gostring" where
  "piece_text (Trivia t) = t"
| "piece_text (LexemeOf t) = t"
| "piece_text (Failed t) = t"

fun is_Failed :: "piece \<Rightarrow> bool" where
  "is_Failed (Failed t) = True"
| "is_Failed p = False"

fun lexeme_pieces :: "piece list \<Rightarrow> gostring list" where
  "lexeme_pieces [] = []"
| "lexeme_pieces (LexemeOf t # ps) = t # lexeme_pieces ps"
| "lexeme_pieces (p # ps) = lexeme_pieces ps"

fun trivia_and_lexemes :: "piece list \<Rightarrow> gostring" where
  "trivia_and_lexemes [] = []"
| "trivia_and_lexemes (Failed t # ps) = trivia_and_lexemes ps"
| "trivia_and_lexemes (p # ps) = piece_text p @ trivia_and_lexemes ps"

definition between :: "Lexer \<Rightarrow> Lexer \<Rightarrow> gostring" where
  "between a b = take (lx_i b - lx_i a) (drop (lx_i a) (lx_src a))"

definition attempt_piece :: "Lexer \<Rightarrow> Lexer \<Rightarrow> piece" where
  "attempt_piece lx0 r =
     (if lx_tokens r = lx_tokens lx0 then Failed (between lx0 r)
      else LexemeOf (Lexeme (last (lx_tokens r))))"

function pieces :: "unicode_tables \<Rightarrow> Lexer \<Rightarrow> piece list" where
  "pieces U lx =
     (let lx0 = skipWSAndComments lx in
      case nextToken U lx of
        Inl p \<Rightarrow> []
      | Inr r \<Rightarrow>
          Trivia (between lx lx0) #
            (if fst r then attempt_piece lx0 (snd r) # pieces U (snd r) else []))"
  by pat_completeness auto
termination
  by (relation "measure (\<lambda>(U, lx). lx_length lx - lx_i lx)")
     (use nextToken_dec in auto)

declare pieces.simps [simp del]

lemma between_trans:
  assumes "lx_src b = lx_src a" "lx_i a \<le> lx_i b" "lx_i b \<le> lx_i c"
  shows "between a b @ between b c = between a c"
proof -
  have "take (lx_i c - lx_i a) (drop (lx_i a) (lx_src a)) =
        take (lx_i b - lx_i a) (drop (lx_i a) (lx_src a)) @
        take (lx_i c - lx_i b) (drop (lx_i b - lx_i a) (drop (lx_i a) (lx_src a)))"
    using take_add [of "lx_i b - lx_i a" "lx_i c - lx_i b" "drop (lx_i a) (lx_src a)"] assms by simp
  then show ?thesis using assms by (simp add: between_def)
qed

text \<open>What one successful step adds to the lists and which piece it gives.\<close>

lemma attempt_summary:
  assumes "attempt lx0 r"
  shows "piece_text (attempt_piece lx0 r) = between lx0 r
    \<and> ((\<exists>t. lx_tokens r = lx_tokens lx0 @ [t] \<and> Lexeme t = between lx0 r \<and> lx_errors r = lx_errors lx0
            \<and> attempt_piece lx0 r = LexemeOf (Lexeme t))
       \<or> (\<exists>e. lx_tokens r = lx_tokens lx0 \<and> lx_errors r = lx_errors lx0 @ [e]
            \<and> attempt_piece lx0 r = Failed (between lx0 r)))"
proof -
  from assms obtain b' lx' where a: "lx_i lx0 < lx_i r" "built [] lx0 b' lx'"
    "(\<exists>tt. r = add tt b' (lx_line lx0) (lx_col lx0) None None lx') \<or>
     (\<exists>msg. r = errorAt (lx_line lx0) (lx_col lx0) msg lx')"
    unfolding attempt_def outcome_def by blast
  have i: "lx_i r = lx_i lx'" using a(3) by auto
  from a(2) obtain k where k: "k = 0 \<or> lx_i lx0 + k \<le> lx_length lx0" "lx' = consume k lx0"
    "b' = take k (drop (lx_i lx0) (lx_src lx0))"
    unfolding built_def by auto
  have bt: "between lx0 r = b'" using k i by (simp add: between_def)
  from a(3) show ?thesis
  proof
    assume "\<exists>tt. r = add tt b' (lx_line lx0) (lx_col lx0) None None lx'"
    then obtain tt where r: "r = add tt b' (lx_line lx0) (lx_col lx0) None None lx'" by blast
    have "lx_tokens r = lx_tokens lx0 @ [\<lparr>Type = tt, Lexeme = b', Line = lx_line lx0, Column = lx_col lx0, IntVal = None, FloatVal = None\<rparr>]"
      using r k(2) by (simp add: add_def)
    moreover have "lx_errors r = lx_errors lx0" using r k(2) by simp
    ultimately show ?thesis using bt by (auto simp: attempt_piece_def)
  next
    assume "\<exists>msg. r = errorAt (lx_line lx0) (lx_col lx0) msg lx'"
    then obtain msg where r: "r = errorAt (lx_line lx0) (lx_col lx0) msg lx'" by blast
    have "lx_tokens r = lx_tokens lx0" using r k(2) by simp
    moreover have "lx_errors r = lx_errors lx0 @ [Sprintf_error (lx_line lx0) (lx_col lx0) msg]"
      using r k(2) by (simp add: errorAt_def)
    ultimately show ?thesis by (auto simp: attempt_piece_def)
  qed
qed

lemma trivia_summary:
  assumes "trivia lx lx0"
  shows "lx_src lx0 = lx_src lx \<and> lx_i lx \<le> lx_i lx0 \<and> lx_tokens lx0 = lx_tokens lx
     \<and> (lx_errors lx0 = lx_errors lx \<or> (\<exists>e. lx_errors lx0 = lx_errors lx @ [e]))"
proof -
  from assms obtain lx' where m: "moved lx lx'"
    and r: "lx0 = lx' \<or> (\<exists>l c msg. lx0 = errorAt l c msg lx')"
    unfolding trivia_def by blast
  from r show ?thesis using moved_D [OF m] by (auto simp: errorAt_def)
qed

lemma between_self [simp]: "between a a = []"
  by (simp add: between_def)

lemma pieces_account:
  assumes "LexAll_loop U lx = Inr r"
  shows "lx_src r = lx_src lx \<and> lx_i lx \<le> lx_i r \<and> peek_at r 0 = 0
     \<and> concat (map piece_text (pieces U lx)) = between lx r
     \<and> (\<exists>ts. lx_tokens r = lx_tokens lx @ ts \<and> lexeme_pieces (pieces U lx) = map Lexeme ts)
     \<and> (\<exists>es. lx_errors r = lx_errors lx @ es \<and> (es = [] \<longrightarrow> \<not> list_ex is_Failed (pieces U lx)))"
  using assms
proof (induction U lx rule: LexAll_loop.induct)
  case (1 U lx)
  let ?lx0 = "skipWSAndComments lx"
  have t: "trivia lx ?lx0" by (rule skipWSAndComments_trivia)
  note ts = trivia_summary [OF t]
  from nextToken_step [of lx U] show ?case
  proof
    assume a: "peek_at ?lx0 0 = 0 \<and> nextToken U lx = Inr (False, ?lx0)"
    then have r: "r = ?lx0" using "1.prems" by (subst (asm) LexAll_loop.simps) simp
    have p: "pieces U lx = [Trivia (between lx ?lx0)]"
      using a by (subst pieces.simps) (simp add: Let_def)
    show ?thesis unfolding r p using a ts by auto
  next
    assume "peek_at ?lx0 0 \<noteq> 0 \<and> (\<exists>r'. nextToken U lx = Inr (True, r') \<and> attempt ?lx0 r')"
    then obtain r' where n: "nextToken U lx = Inr (True, r')" and at: "attempt ?lx0 r'" by blast
    have l: "LexAll_loop U r' = Inr r"
      using "1.prems" n by (subst (asm) LexAll_loop.simps) simp
    have p: "pieces U lx = Trivia (between lx ?lx0) # attempt_piece ?lx0 r' # pieces U r'"
      using n by (subst pieces.simps) (simp add: Let_def)
    note ih = "1.IH" [of "(True, r')", simplified, OF n l]
    note as = attempt_summary [OF at]
    note aD = attempt_D [OF at]
    have src: "lx_src r = lx_src lx" using ih aD ts by simp
    have le: "lx_i lx \<le> lx_i ?lx0" "lx_i ?lx0 \<le> lx_i r'" "lx_i r' \<le> lx_i r"
      using ih aD ts by simp_all
    have "concat (map piece_text (pieces U lx)) = between lx ?lx0 @ between ?lx0 r' @ between r' r"
      unfolding p using as ih by simp
    also have "\<dots> = between lx r"
    proof -
      have b1: "between lx ?lx0 @ between ?lx0 r' = between lx r'"
        using between_trans [of ?lx0 lx r'] le ts by simp
      have b2: "between lx r' @ between r' r = between lx r"
        using between_trans [of r' lx r] le aD ts by simp
      show ?thesis by (simp only: append_assoc [symmetric] b1 b2)
    qed
    finally have c: "concat (map piece_text (pieces U lx)) = between lx r" .
    from ih obtain ts' es' where ih': "lx_tokens r = lx_tokens r' @ ts'"
      "lexeme_pieces (pieces U r') = map Lexeme ts'"
      "lx_errors r = lx_errors r' @ es'" "es' = [] \<longrightarrow> \<not> list_ex is_Failed (pieces U r')"
      by blast
    from ts obtain e0 where e0: "lx_errors ?lx0 = lx_errors lx @ e0" by auto
    from as have
      "(\<exists>ts. lx_tokens r = lx_tokens lx @ ts \<and> lexeme_pieces (pieces U lx) = map Lexeme ts)
     \<and> (\<exists>es. lx_errors r = lx_errors lx @ es \<and> (es = [] \<longrightarrow> \<not> list_ex is_Failed (pieces U lx)))"
    proof (elim conjE disjE exE)
      fix t assume "lx_tokens r' = lx_tokens ?lx0 @ [t]" "Lexeme t = between ?lx0 r'"
        "lx_errors r' = lx_errors ?lx0" "attempt_piece ?lx0 r' = LexemeOf (Lexeme t)"
      then show ?thesis
        unfolding p using ih' ts e0 by auto
    next
      fix e assume "lx_tokens r' = lx_tokens ?lx0" "lx_errors r' = lx_errors ?lx0 @ [e]"
        "attempt_piece ?lx0 r' = Failed (between ?lx0 r')"
      then show ?thesis
        unfolding p using ih' ts e0 by auto
    qed
    then show ?thesis using src le c ih by simp
  qed
qed

lemma trivia_and_lexemes_all:
  "\<not> list_ex is_Failed ps \<Longrightarrow> trivia_and_lexemes ps = concat (map piece_text ps)"
  by (induction ps rule: trivia_and_lexemes.induct) simp_all

text \<open>
  C1. The trivia, the token lexemes and the texts of the failed attempts of one run,
  concatenated in order, are the part of the input the run went over: a prefix of
  the input, and the whole input when it contains no U+0000. The lexeme pieces are the
  lexemes of the tokens returned, in order. When the input contains no U+0000 and the
  run records no error there is no failed attempt, so that trivia and lexemes alone
  are the input.
\<close>

theorem round_trip_with_failed_attempts:
  "\<exists>toks errs.
      LexAll U (NewLexer rs) = Inr (toks, errs)
      \<and> prefix (concat (map piece_text (pieces U (NewLexer rs)))) rs
      \<and> lexeme_pieces (pieces U (NewLexer rs)) = map Lexeme toks
      \<and> (0 \<notin> set rs \<longrightarrow> concat (map piece_text (pieces U (NewLexer rs))) = rs)
      \<and> (0 \<notin> set rs \<and> errs = [] \<longrightarrow> trivia_and_lexemes (pieces U (NewLexer rs)) = rs)"
proof -
  obtain r where r: "LexAll_loop U (NewLexer rs) = Inr r" using LexAll_loop_total by blast
  have inv: "run_inv rs r" using run_inv_LexAll_loop [OF run_inv_init r] .
  note acc = pieces_account [OF r]
  have src: "lx_src r = rs" and le: "lx_i r \<le> length rs" using inv by (simp_all add: run_inv_def)
  have bt: "between (NewLexer rs) r = take (lx_i r) rs" by (simp add: between_def NewLexer_def)
  have full: "lx_i r = length rs" if nz: "0 \<notin> set rs"
  proof -
    have "\<not> lx_i r < length rs"
    proof
      assume "lx_i r < length rs"
      moreover from this have "rs ! lx_i r = 0"
        using acc src by (simp add: peek_at_def lx_length_def)
      ultimately have "0 \<in> set rs" using nth_mem [of "lx_i r" rs] by simp
      then show False using nz by simp
    qed
    then show ?thesis using le by simp
  qed
  from acc obtain ts es where l: "lx_tokens r = ts" "lexeme_pieces (pieces U (NewLexer rs)) = map Lexeme ts"
    "lx_errors r = es" "es = [] \<longrightarrow> \<not> list_ex is_Failed (pieces U (NewLexer rs))"
    by (auto simp: NewLexer_def)
  have c: "concat (map piece_text (pieces U (NewLexer rs))) = take (lx_i r) rs" using acc bt by simp
  have "LexAll U (NewLexer rs) = Inr (ts, es)" using r l by (simp add: LexAll_def)
  moreover have "prefix (concat (map piece_text (pieces U (NewLexer rs)))) rs"
    unfolding c by (rule take_is_prefix)
  moreover have "0 \<notin> set rs \<longrightarrow> concat (map piece_text (pieces U (NewLexer rs))) = rs"
    using c full by simp
  ultimately show ?thesis
    using l trivia_and_lexemes_all [of "pieces U (NewLexer rs)"] by auto
qed


theorem round_trip_with_failed_attempts_witness:
  "0 \<notin> set (gostr ''x = 1 // c'') \<and>
   trivia_and_lexemes (pieces no_tables (NewLexer (gostr ''x = 1 // c''))) = gostr ''x = 1 // c''"
proof -
  have nz: "0 \<notin> set (gostr ''x = 1 // c'')" by code_simp
  have e: "snd (projr (LexAll no_tables (NewLexer (gostr ''x = 1 // c'')))) = []" by code_simp
  show ?thesis
    using round_trip_with_failed_attempts [of no_tables "gostr ''x = 1 // c''"] nz e by auto
qed

text \<open>
  The claim as stated, for every input, fails. On the input \<^verbatim>\<open>@\<close> the run consumes
  the code point, records an error and returns no token, and nothing is skipped: trivia
  and lexemes together are empty. On the input \<^verbatim>\<open>a\<close>, U+0000, \<^verbatim>\<open>b\<close> the run
  stops at the U+0000 with the one token \<^verbatim>\<open>a\<close> and no error.
\<close>

theorem round_trip_loses_failed_attempt:
  "pieces no_tables (NewLexer (gostr ''@'')) = [Trivia [], Failed (gostr ''@''), Trivia []]
   \<and> trivia_and_lexemes (pieces no_tables (NewLexer (gostr ''@''))) \<noteq> gostr ''@''
   \<and> pieces no_tables (NewLexer [0x61, 0, 0x62]) = [Trivia [], LexemeOf [0x61], Trivia []]
   \<and> trivia_and_lexemes (pieces no_tables (NewLexer [0x61, 0, 0x62])) \<noteq> [0x61, 0, 0x62]"
  by code_simp

subsection \<open>C10: the code point U+0000 is the end value\<close>

text \<open>
  The texts in which a scanner is still inside its construct when it meets a U+0000.
  \<open>string_body\<close>: the code points after the opening quote of a string that the scanner
  passes over, one by one or as a backslash with the code point it takes along, without
  meeting a closing quote, a newline or a U+0000. \<open>comment_body d\<close>: the code points of a
  block comment open at depth \<open>d\<close> that neither close it nor contain a U+0000.
  \<open>plain_in_raw\<close> and \<open>plain_in_line\<close>: a code point inside a raw string, and inside
  a line comment.
\<close>

fun string_body :: "rune list \<Rightarrow> bool" where
  "string_body [] = True"
| "string_body (ch # rest) =
     (if ch = 0 \<or> ch = rn CHR 0x0A \<or> ch = rn CHR 0x22 then False
      else if ch = rn CHR 0x5C then
        (case rest of [] \<Rightarrow> False | e # rest' \<Rightarrow> e \<noteq> 0 \<and> e \<noteq> rn CHR 0x0A \<and> string_body rest')
      else string_body rest)"

fun comment_body :: "nat \<Rightarrow> rune list \<Rightarrow> bool" where
  "comment_body d [] = True"
| "comment_body d (x # xs) =
     (x \<noteq> 0 \<and>
      (case xs of
         [] \<Rightarrow> True
       | y # ys \<Rightarrow>
           if x = rn CHR ''/'' \<and> y = rn CHR ''*'' then comment_body (d + 1) ys
           else if x = rn CHR ''*'' \<and> y = rn CHR ''/'' then 1 < d \<and> comment_body (d - 1) ys
           else comment_body d xs))"

definition plain_in_raw :: "rune \<Rightarrow> bool" where
  "plain_in_raw ch \<longleftrightarrow> ch \<noteq> 0 \<and> ch \<noteq> rn CHR 0x60"

definition plain_in_line :: "rune \<Rightarrow> bool" where
  "plain_in_line ch \<longleftrightarrow> ch \<noteq> 0 \<and> ch \<noteq> rn CHR 0x0A"

lemma drop_Cons_peek:
  "drop (lx_i lx) (lx_src lx) = x # xs \<Longrightarrow>
   peek_at lx 0 = x \<and> lx_i lx < lx_length lx \<and> drop (lx_i (consume 1 lx)) (lx_src (consume 1 lx)) = xs"
proof -
  assume a: "drop (lx_i lx) (lx_src lx) = x # xs"
  then have i: "lx_i lx < length (lx_src lx)" by (cases "lx_i lx < length (lx_src lx)") auto
  then have "drop (lx_i lx) (lx_src lx) = lx_src lx ! lx_i lx # drop (Suc (lx_i lx)) (lx_src lx)"
    by (simp add: Cons_nth_drop_Suc)
  then show ?thesis using a i by (simp add: peek_at_def lx_length_def)
qed

lemma scanRawString_loop_NUL:
  "list_all plain_in_raw body \<Longrightarrow> drop (lx_i lx) (lx_src lx) = body @ 0 # rest \<Longrightarrow>
   scanRawString_loop l c b lx = errorAt l c (gostr ''unterminated raw string'') (consume (length body) lx)"
proof (induction body arbitrary: b lx)
  case Nil
  then have "peek_at lx 0 = 0" using drop_Cons_peek [of lx 0 rest] by simp
  then show ?case by (subst scanRawString_loop.simps) (simp add: Let_def)
next
  case (Cons x xs)
  from Cons.prems have d: "peek_at lx 0 = x" "drop (lx_i (consume 1 lx)) (lx_src (consume 1 lx)) = xs @ 0 # rest"
    using drop_Cons_peek [of lx x "xs @ 0 # rest"] by simp_all
  have xs: "list_all plain_in_raw xs" and px: "plain_in_raw x" using Cons.prems(1) by simp_all
  have x: "x \<noteq> 0" "x \<noteq> rn CHR 0x60" using px by (simp_all add: plain_in_raw_def)
  have adv: "advance lx = (x, consume 1 lx)" using advance_peek [of lx] d(1) x(1) by simp
  have "scanRawString_loop l c b lx = scanRawString_loop l c (b @ [x]) (consume 1 lx)"
    using d(1) x adv by (subst scanRawString_loop.simps) (simp add: Let_def)
  then show ?case using Cons.IH [OF xs d(2), of "b @ [x]"] by simp
qed

lemma stop_at_NUL:
  assumes "peek_at (skipWSAndComments lx) 0 = 0"
  shows "nextToken U lx = Inr (False, skipWSAndComments lx)"
    "LexAll U lx = Inr (lx_tokens (skipWSAndComments lx), lx_errors (skipWSAndComments lx))"
proof -
  show n: "nextToken U lx = Inr (False, skipWSAndComments lx)"
    using assms by (simp add: nextToken_def Let_def)
  have "LexAll_loop U lx = Inr (skipWSAndComments lx)"
    using n by (subst LexAll_loop.simps) simp
  then show "LexAll U lx = Inr (lx_tokens (skipWSAndComments lx), lx_errors (skipWSAndComments lx))"
    by (simp add: LexAll_def)
qed

lemma scanRawString_NUL:
  assumes q: "peek_at lx 0 = rn CHR 0x60"
    and d: "drop (Suc (lx_i lx)) (lx_src lx) = body @ 0 # rest" and p: "list_all plain_in_raw body"
  shows "scanRawString lx =
     errorAt (lx_line lx) (lx_col lx) (gostr ''unterminated raw string'') (consume (Suc (length body)) lx)"
proof -
  have nz: "peek_at lx 0 \<noteq> 0" using q by simp
  have adv: "advance lx = (rn CHR 0x60, consume 1 lx)" using advance_peek [OF nz] q by simp
  have "scanRawString lx = scanRawString_loop (lx_line lx) (lx_col lx) [rn CHR 0x60] (consume 1 lx)"
    using adv by (simp add: scanRawString_def Let_def)
  then show ?thesis
    using scanRawString_loop_NUL [OF p, of "consume 1 lx" rest "lx_line lx" "lx_col lx" "[rn CHR 0x60]"] d
    by simp
qed

lemma scanChar_NUL:
  assumes q: "peek_at lx 0 = rn CHR 0x27"
  shows "peek_at lx 1 = 0 \<Longrightarrow>
           scanChar lx = errorAt (lx_line lx) (lx_col lx) (gostr ''empty or invalid char literal'') (consume 1 lx)"
    and "peek_at lx 1 = rn CHR 0x5C \<Longrightarrow> peek_at lx 2 = 0 \<Longrightarrow>
           scanChar lx = errorAt (lx_line lx) (lx_col lx) (gostr ''unterminated char escape'') (consume 2 lx)"
    and "peek_at lx 1 \<noteq> 0 \<Longrightarrow> peek_at lx 1 \<noteq> rn CHR 0x5C \<Longrightarrow> peek_at lx 1 \<noteq> rn CHR 0x0A \<Longrightarrow>
         peek_at lx 1 \<noteq> rn CHR 0x27 \<Longrightarrow> peek_at lx 2 = 0 \<Longrightarrow>
           scanChar lx = errorAt (lx_line lx) (lx_col lx) (gostr ''unterminated char literal'') (consume 2 lx)"
proof -
  have nz: "peek_at lx 0 \<noteq> 0" using q by simp
  have adv: "advance lx = (rn CHR 0x27, consume 1 lx)" using advance_peek [OF nz] q by simp
  show "peek_at lx 1 = 0 \<Longrightarrow>
           scanChar lx = errorAt (lx_line lx) (lx_col lx) (gostr ''empty or invalid char literal'') (consume 1 lx)"
    using adv by (simp add: scanChar_def Let_def)
  have adv1: "peek_at lx 1 \<noteq> 0 \<Longrightarrow> advance (consume 1 lx) = (peek_at lx 1, consume 2 lx)"
    using advance_peek [of "consume 1 lx"] by (simp add: numeral_2_eq_2)
  show "peek_at lx 1 = rn CHR 0x5C \<Longrightarrow> peek_at lx 2 = 0 \<Longrightarrow>
           scanChar lx = errorAt (lx_line lx) (lx_col lx) (gostr ''unterminated char escape'') (consume 2 lx)"
    using adv adv1 by (simp add: scanChar_def Let_def numeral_2_eq_2)
  show "peek_at lx 1 \<noteq> 0 \<Longrightarrow> peek_at lx 1 \<noteq> rn CHR 0x5C \<Longrightarrow> peek_at lx 1 \<noteq> rn CHR 0x0A \<Longrightarrow>
         peek_at lx 1 \<noteq> rn CHR 0x27 \<Longrightarrow> peek_at lx 2 = 0 \<Longrightarrow>
           scanChar lx = errorAt (lx_line lx) (lx_col lx) (gostr ''unterminated char literal'') (consume 2 lx)"
    using adv adv1 by (simp add: scanChar_def scanChar_close_def Let_def numeral_2_eq_2)
qed

lemma under_cursor:
  "drop (lx_i lx) (lx_src lx) = xs \<Longrightarrow> n < length xs \<Longrightarrow> peek_at lx n = xs ! n"
  by (auto simp: peek_at_def lx_length_def)

lemma drop_tail:
  "drop i xs = ys @ zs \<Longrightarrow> drop (i + length ys) xs = zs"
  by (metis add.commute append_eq_conv_conj drop_drop)

lemma string_contract_body:
  "string_body body \<Longrightarrow>
   string_contract (Some 0) (body @ 0 # rest) = (length body, UnterminatedLiteral) \<and>
   string_contract (Some 0) (body @ rn CHR 0x5C # 0 # rest) = (length body + 1, UnterminatedEscape)"
proof (induction body rule: string_body.induct)
  case 1
  then show ?case by simp
next
  case (2 ch rest')
  show ?case
  proof (cases "ch = rn CHR 0x5C")
    case True
    then obtain e r where r: "rest' = e # r" "e \<noteq> 0" "e \<noteq> rn CHR 0x0A" "string_body r"
      using "2.prems" by (cases rest') auto
    have ch: "\<not> (ch = 0 \<or> ch = rn CHR 0x0A \<or> ch = rn CHR 0x22)" using True by simp
    show ?thesis
      using "2.IH"(1) [OF ch True r(1) r(4)] True r by simp
  next
    case False
    then have ch: "\<not> (ch = 0 \<or> ch = rn CHR 0x0A \<or> ch = rn CHR 0x22)" and b: "string_body rest'"
      using "2.prems" by (auto split: if_splits)
    show ?thesis
      using "2.IH"(2) [OF ch False b] ch False by simp
  qed
qed

lemma skip_scan_comment_body:
  "comment_body d body \<Longrightarrow> 1 \<le> d \<Longrightarrow>
   skip_scan (InBlock d s) k (body @ 0 # rest) = Unterminated s (k + length body)"
proof (induction d body arbitrary: k rule: comment_body.induct)
  case (1 d)
  then show ?case by simp
next
  case (2 d x xs)
  have x: "x \<noteq> 0" using "2.prems" by simp
  show ?case
  proof (cases xs)
    case Nil
    then show ?thesis using x by simp
  next
    case (Cons y ys)
    consider (opn) "x = rn CHR ''/'' \<and> y = rn CHR ''*''"
      | (cls) "\<not> (x = rn CHR ''/'' \<and> y = rn CHR ''*'')" "x = rn CHR ''*'' \<and> y = rn CHR ''/''"
      | (oth) "\<not> (x = rn CHR ''/'' \<and> y = rn CHR ''*'')" "\<not> (x = rn CHR ''*'' \<and> y = rn CHR ''/'')"
      by blast
    then show ?thesis
    proof cases
      case opn
      have b: "comment_body (d + 1) ys" using "2.prems" Cons opn by simp
      show ?thesis
        using "2.IH"(1) [OF Cons opn b, of "k + 2"] Cons opn x by simp
    next
      case cls
      have b: "comment_body (d - 1) ys" "1 < d" using "2.prems" Cons cls by simp_all
      show ?thesis
        using "2.IH"(2) [OF Cons cls b(1), of "k + 2"] Cons cls x b(2) by simp
    next
      case oth
      have b: "comment_body d xs"
        using "2.prems"(1) oth unfolding Cons comment_body.simps(2) [of d x "y # ys"]
        by (simp del: comment_body.simps)
      have "skip_scan (InBlock d s) k (x # y # (ys @ 0 # rest)) =
            skip_scan (InBlock d s) (k + 1) (y # (ys @ 0 # rest))"
        using oth x by (subst skip_scan.simps(4)) (auto simp del: skip_scan.simps)
      then show ?thesis
        using "2.IH"(3) [OF Cons oth b "2.prems"(2), of "k + 1"] unfolding Cons
        by (simp del: skip_scan.simps)
    qed
  qed
qed

lemma skip_scan_line_body:
  "list_all (\<lambda>ch. ch \<noteq> 0 \<and> ch \<noteq> rn CHR 0x0A) body \<Longrightarrow>
   skip_scan InLine k (body @ 0 # rest) = skip_scan Outside (k + length body + 1) rest"
  by (induction body arbitrary: k) simp_all

lemma scanString_at_NUL:
  assumes d: "drop (lx_i lx) (lx_src lx) = rn CHR 0x22 # tx"
    and c: "string_contract (Some 0) tx = (n, e)" "e \<noteq> Closed"
  shows "scanString lx =
     Inr (errorAt (lx_line lx) (lx_col lx)
            (if e = UnterminatedEscape then gostr ''unterminated string escape''
             else gostr ''unterminated string literal'')
            (consume (Suc n) lx))"
proof -
  have q: "peek_at lx 0 = rn CHR 0x22" using d under_cursor [of lx _ 0] by simp
  then have nz: "peek_at lx 0 \<noteq> 0" by simp
  have adv: "advance lx = (rn CHR 0x22, consume 1 lx)" using advance_peek [OF nz] q by simp
  have t: "drop (Suc (lx_i lx)) (lx_src lx) = tx"
    using d drop_tail [of "lx_i lx" "lx_src lx" "[rn CHR 0x22]" tx] by simp
  have "scanString lx = scanString_loop (lx_line lx) (lx_col lx) [rn CHR 0x22] (consume 1 lx)"
    using adv by (simp add: scanString_def Let_def)
  then show ?thesis
    using scanString_loop_contract [of "[rn CHR 0x22]" "lx_line lx" "lx_col lx" "consume 1 lx"] t c
    by (cases e) (simp_all add: string_finish_def)
qed

lemma skip_blockComment_NUL:
  assumes d: "drop (lx_i lx) (lx_src lx) = rn CHR ''/'' # rn CHR ''*'' # body @ 0 # rest"
    and p: "comment_body 1 body"
  shows "skipWSAndComments lx =
     errorAt (lx_line lx) (lx_col lx) (gostr ''unterminated block comment'') (consume (length body + 2) lx)"
proof -
  have "skip_scan Outside 0 (drop (lx_i lx) (lx_src lx)) = Unterminated 0 (2 + length body)"
    unfolding d using skip_scan_comment_body [OF p, of 0 2 rest] by (simp add: is_space_def numeral_2_eq_2)
  then show ?thesis
    unfolding skipWSAndComments_scan [of lx] by (simp add: skipped_def add.commute)
qed

lemma skip_lineComment_NUL:
  assumes d: "drop (lx_i lx) (lx_src lx) = rn CHR ''/'' # rn CHR ''/'' # body @ 0 # rest"
    and p: "list_all (\<lambda>ch. ch \<noteq> 0 \<and> ch \<noteq> rn CHR 0x0A) body"
  shows "skipWSAndComments lx = skipWSAndComments (consume (length body + 3) lx)"
proof -
  have r: "drop (lx_i lx + (length body + 3)) (lx_src lx) = rest"
    using drop_tail [of "lx_i lx" "lx_src lx" "rn CHR ''/'' # rn CHR ''/'' # body @ [0]" rest] d by (simp add: numeral_3_eq_3)
  have "skip_scan Outside 0 (drop (lx_i lx) (lx_src lx)) = skip_scan Outside (length body + 3) rest"
    unfolding d using skip_scan_line_body [OF p, of 2 rest]
    by (simp add: is_space_def numeral_2_eq_2 numeral_3_eq_3)
  then have "skipWSAndComments lx = skipped lx (skip_scan Outside (length body + 3) rest)"
    unfolding skipWSAndComments_scan [of lx] by simp
  moreover have "skipWSAndComments (consume (length body + 3) lx) =
      skipped lx (skip_scan Outside (length body + 3) rest)"
    using skipWSAndComments_scan_from [OF refl, of "length body + 3" lx] r by simp
  ultimately show ?thesis by simp
qed

lemma scanChar_escape_NUL:
  assumes q: "peek_at lx 0 = rn CHR 0x27" "peek_at lx 1 = rn CHR 0x5C"
    "peek_at lx 2 \<noteq> 0" "peek_at lx 2 \<noteq> rn CHR 0x0A" "peek_at lx 3 = 0"
  shows "scanChar lx = errorAt (lx_line lx) (lx_col lx) (gostr ''unterminated char literal'') (consume 3 lx)"
proof -
  have nz: "peek_at lx 0 \<noteq> 0" using q by simp
  have adv: "advance lx = (rn CHR 0x27, consume 1 lx)" using advance_peek [OF nz] q by simp
  have adv1: "advance (consume 1 lx) = (rn CHR 0x5C, consume 2 lx)"
    using advance_peek [of "consume 1 lx"] q by (simp add: numeral_2_eq_2)
  have adv2: "advance (consume 2 lx) = (peek_at lx 2, consume 3 lx)"
    using advance_peek [of "consume 2 lx"] q by (simp add: numeral_3_eq_3 numeral_2_eq_2)
  show ?thesis
    using q adv adv1 adv2 by (simp add: scanChar_def scanChar_close_def Let_def)
qed

text \<open>
  C10. \<^verbatim>\<open>peek\<close> answers 0 on a code point U+0000 as it does beyond the buffer, so
  every scanner that tests for the end takes a U+0000 for the end of the input, whatever
  follows it (\<open>rest\<close>). When the text under the cursor after trivia starts with U+0000,
  \<^verbatim>\<open>nextToken\<close> returns false and \<^verbatim>\<open>LexAll\<close> returns what was collected so far. A
  U+0000 met inside a double-quoted string gives "unterminated string literal", and
  "unterminated string escape" when it comes right after a backslash; inside a raw string
  "unterminated raw string"; inside a block comment, at any depth, "unterminated block
  comment". In a character literal it gives "empty or invalid char literal" right after
  the opening quote, "unterminated char escape" right after a backslash, and
  "unterminated char literal" in place of the closing quote, after an escape or after a
  plain code point. A line comment does not test for the end before it consumes: a U+0000
  inside it is consumed, ends the comment as a newline does, and the skipper goes on with
  what follows.
\<close>

theorem NUL_acts_as_end_of_input:
  "(drop (lx_i (skipWSAndComments lx)) (lx_src (skipWSAndComments lx)) = 0 # rest \<longrightarrow>
      nextToken U lx = Inr (False, skipWSAndComments lx)
      \<and> LexAll U lx = Inr (lx_tokens (skipWSAndComments lx), lx_errors (skipWSAndComments lx)))
   \<and> (drop (lx_i lx) (lx_src lx) = rn CHR 0x22 # body @ 0 # rest \<and> string_body body \<longrightarrow>
      scanString lx = Inr (errorAt (lx_line lx) (lx_col lx) (gostr ''unterminated string literal'')
                             (consume (length body + 1) lx)))
   \<and> (drop (lx_i lx) (lx_src lx) = rn CHR 0x22 # body @ rn CHR 0x5C # 0 # rest \<and> string_body body \<longrightarrow>
      scanString lx = Inr (errorAt (lx_line lx) (lx_col lx) (gostr ''unterminated string escape'')
                             (consume (length body + 2) lx)))
   \<and> (drop (lx_i lx) (lx_src lx) = rn CHR 0x60 # body @ 0 # rest \<and> list_all plain_in_raw body \<longrightarrow>
      scanRawString lx = errorAt (lx_line lx) (lx_col lx) (gostr ''unterminated raw string'')
                             (consume (length body + 1) lx))
   \<and> (drop (lx_i lx) (lx_src lx) = rn CHR ''/'' # rn CHR ''*'' # body @ 0 # rest
        \<and> comment_body 1 body \<longrightarrow>
      skipWSAndComments lx = errorAt (lx_line lx) (lx_col lx) (gostr ''unterminated block comment'')
                             (consume (length body + 2) lx))
   \<and> (drop (lx_i lx) (lx_src lx) = rn CHR 0x27 # 0 # rest \<longrightarrow>
      scanChar lx = errorAt (lx_line lx) (lx_col lx) (gostr ''empty or invalid char literal'') (consume 1 lx))
   \<and> (drop (lx_i lx) (lx_src lx) = rn CHR 0x27 # rn CHR 0x5C # 0 # rest \<longrightarrow>
      scanChar lx = errorAt (lx_line lx) (lx_col lx) (gostr ''unterminated char escape'') (consume 2 lx))
   \<and> (drop (lx_i lx) (lx_src lx) = rn CHR 0x27 # rn CHR 0x5C # ch # 0 # rest
        \<and> ch \<noteq> 0 \<and> ch \<noteq> rn CHR 0x0A \<longrightarrow>
      scanChar lx = errorAt (lx_line lx) (lx_col lx) (gostr ''unterminated char literal'') (consume 3 lx))
   \<and> (drop (lx_i lx) (lx_src lx) = rn CHR 0x27 # ch # 0 # rest
        \<and> ch \<noteq> 0 \<and> ch \<noteq> rn CHR 0x5C \<and> ch \<noteq> rn CHR 0x0A \<and> ch \<noteq> rn CHR 0x27 \<longrightarrow>
      scanChar lx = errorAt (lx_line lx) (lx_col lx) (gostr ''unterminated char literal'') (consume 2 lx))
   \<and> (drop (lx_i lx) (lx_src lx) = rn CHR ''/'' # rn CHR ''/'' # body @ 0 # rest
        \<and> list_all plain_in_line body \<longrightarrow>
      skipWSAndComments lx = skipWSAndComments (consume (length body + 3) lx))"
proof (intro conjI impI)
  assume "drop (lx_i (skipWSAndComments lx)) (lx_src (skipWSAndComments lx)) = 0 # rest"
  then have z: "peek_at (skipWSAndComments lx) 0 = 0" using under_cursor [of "skipWSAndComments lx" _ 0] by simp
  show "nextToken U lx = Inr (False, skipWSAndComments lx)" by (rule stop_at_NUL(1) [OF z])
  show "LexAll U lx = Inr (lx_tokens (skipWSAndComments lx), lx_errors (skipWSAndComments lx))"
    by (rule stop_at_NUL(2) [OF z])
next
  assume a: "drop (lx_i lx) (lx_src lx) = rn CHR 0x22 # body @ 0 # rest \<and> string_body body"
  then have c: "string_contract (Some 0) (body @ 0 # rest) = (length body, UnterminatedLiteral)"
    using string_contract_body by blast
  show "scanString lx = Inr (errorAt (lx_line lx) (lx_col lx) (gostr ''unterminated string literal'')
                             (consume (length body + 1) lx))"
    using scanString_at_NUL [OF conjunct1 [OF a] c] by simp
next
  assume a: "drop (lx_i lx) (lx_src lx) = rn CHR 0x22 # body @ rn CHR 0x5C # 0 # rest \<and> string_body body"
  then have c: "string_contract (Some 0) (body @ rn CHR 0x5C # 0 # rest) = (length body + 1, UnterminatedEscape)"
    using string_contract_body by blast
  show "scanString lx = Inr (errorAt (lx_line lx) (lx_col lx) (gostr ''unterminated string escape'')
                             (consume (length body + 2) lx))"
    using scanString_at_NUL [OF conjunct1 [OF a] c] by simp
next
  assume a: "drop (lx_i lx) (lx_src lx) = rn CHR 0x60 # body @ 0 # rest \<and> list_all plain_in_raw body"
  then have "peek_at lx 0 = rn CHR 0x60" using under_cursor [of lx _ 0] by simp
  moreover have "drop (Suc (lx_i lx)) (lx_src lx) = body @ 0 # rest"
    using a drop_tail [of "lx_i lx" "lx_src lx" "[rn CHR 0x60]" "body @ 0 # rest"] by simp
  ultimately show "scanRawString lx = errorAt (lx_line lx) (lx_col lx) (gostr ''unterminated raw string'')
                             (consume (length body + 1) lx)"
    using a scanRawString_NUL [of lx body rest] by simp
next
  assume a: "drop (lx_i lx) (lx_src lx) = rn CHR ''/'' # rn CHR ''*'' # body @ 0 # rest
        \<and> comment_body 1 body"
  then show "skipWSAndComments lx = errorAt (lx_line lx) (lx_col lx) (gostr ''unterminated block comment'')
                             (consume (length body + 2) lx)"
    using skip_blockComment_NUL by blast
next
  assume a: "drop (lx_i lx) (lx_src lx) = rn CHR 0x27 # 0 # rest"
  then have "peek_at lx 0 = rn CHR 0x27" "peek_at lx 1 = 0"
    using under_cursor [of lx _ 0] under_cursor [of lx _ 1] by simp_all
  then show "scanChar lx = errorAt (lx_line lx) (lx_col lx) (gostr ''empty or invalid char literal'') (consume 1 lx)"
    by (rule scanChar_NUL(1))
next
  assume a: "drop (lx_i lx) (lx_src lx) = rn CHR 0x27 # rn CHR 0x5C # 0 # rest"
  then have "peek_at lx 0 = rn CHR 0x27" "peek_at lx 1 = rn CHR 0x5C" "peek_at lx 2 = 0"
    using under_cursor [of lx _ 0] under_cursor [of lx _ 1] under_cursor [of lx _ 2] by simp_all
  then show "scanChar lx = errorAt (lx_line lx) (lx_col lx) (gostr ''unterminated char escape'') (consume 2 lx)"
    by (rule scanChar_NUL(2))
next
  assume a: "drop (lx_i lx) (lx_src lx) = rn CHR 0x27 # rn CHR 0x5C # ch # 0 # rest
        \<and> ch \<noteq> 0 \<and> ch \<noteq> rn CHR 0x0A"
  then have "peek_at lx 0 = rn CHR 0x27" "peek_at lx 1 = rn CHR 0x5C" "peek_at lx 2 = ch" "peek_at lx 3 = 0"
    using under_cursor [of lx _ 0] under_cursor [of lx _ 1] under_cursor [of lx _ 2]
      under_cursor [of lx _ 3] by simp_all
  then show "scanChar lx = errorAt (lx_line lx) (lx_col lx) (gostr ''unterminated char literal'') (consume 3 lx)"
    using a scanChar_escape_NUL [of lx] by simp
next
  assume a: "drop (lx_i lx) (lx_src lx) = rn CHR 0x27 # ch # 0 # rest
        \<and> ch \<noteq> 0 \<and> ch \<noteq> rn CHR 0x5C \<and> ch \<noteq> rn CHR 0x0A \<and> ch \<noteq> rn CHR 0x27"
  then have "peek_at lx 0 = rn CHR 0x27" "peek_at lx 1 = ch" "peek_at lx 2 = 0"
    using under_cursor [of lx _ 0] under_cursor [of lx _ 1] under_cursor [of lx _ 2] by simp_all
  then show "scanChar lx = errorAt (lx_line lx) (lx_col lx) (gostr ''unterminated char literal'') (consume 2 lx)"
    using a scanChar_NUL(3) [of lx] by simp
next
  assume a: "drop (lx_i lx) (lx_src lx) = rn CHR ''/'' # rn CHR ''/'' # body @ 0 # rest
        \<and> list_all plain_in_line body"
  then have "list_all (\<lambda>ch. ch \<noteq> 0 \<and> ch \<noteq> rn CHR 0x0A) body"
    by (simp add: plain_in_line_def [abs_def])
  then show "skipWSAndComments lx = skipWSAndComments (consume (length body + 3) lx)"
    using a skip_lineComment_NUL by blast
qed

theorem NUL_acts_as_end_of_input_witness:
  "LexAll no_tables (NewLexer [0x20, 0, 0x78]) = Inr ([], [])
   \<and> scanString (NewLexer [0x22, 0x61, 0x5C, 0x22, 0x62, 0, 0x63, 0x22]) =
       Inr (errorAt 1 1 (gostr ''unterminated string literal'')
              (consume 5 (NewLexer [0x22, 0x61, 0x5C, 0x22, 0x62, 0, 0x63, 0x22])))
   \<and> scanString (NewLexer [0x22, 0x61, 0x5C, 0, 0x22]) =
       Inr (errorAt 1 1 (gostr ''unterminated string escape'') (consume 3 (NewLexer [0x22, 0x61, 0x5C, 0, 0x22])))
   \<and> scanRawString (NewLexer [0x60, 0x61, 0, 0x60]) =
       errorAt 1 1 (gostr ''unterminated raw string'') (consume 2 (NewLexer [0x60, 0x61, 0, 0x60]))
   \<and> skipWSAndComments (NewLexer [0x2F, 0x2A, 0x2F, 0x2A, 0x78, 0x2A, 0x2F, 0x79, 0, 0x2A, 0x2F]) =
       errorAt 1 1 (gostr ''unterminated block comment'')
         (consume 8 (NewLexer [0x2F, 0x2A, 0x2F, 0x2A, 0x78, 0x2A, 0x2F, 0x79, 0, 0x2A, 0x2F]))
   \<and> scanChar (NewLexer [0x27, 0, 0x27]) =
       errorAt 1 1 (gostr ''empty or invalid char literal'') (consume 1 (NewLexer [0x27, 0, 0x27]))
   \<and> scanChar (NewLexer [0x27, 0x5C, 0, 0x27]) =
       errorAt 1 1 (gostr ''unterminated char escape'') (consume 2 (NewLexer [0x27, 0x5C, 0, 0x27]))
   \<and> scanChar (NewLexer [0x27, 0x5C, 0x6E, 0, 0x27]) =
       errorAt 1 1 (gostr ''unterminated char literal'') (consume 3 (NewLexer [0x27, 0x5C, 0x6E, 0, 0x27]))
   \<and> scanChar (NewLexer [0x27, 0x61, 0, 0x27]) =
       errorAt 1 1 (gostr ''unterminated char literal'') (consume 2 (NewLexer [0x27, 0x61, 0, 0x27]))
   \<and> skipWSAndComments (NewLexer [0x2F, 0x2F, 0x61, 0, 0x62]) = consume 4 (NewLexer [0x2F, 0x2F, 0x61, 0, 0x62])"
proof -
  let ?L1 = "NewLexer [0x20, 0, 0x78]"
  have h1: "drop (lx_i (skipWSAndComments ?L1)) (lx_src (skipWSAndComments ?L1)) = 0 # [0x78]"
    by code_simp
  have e1: "lx_tokens (skipWSAndComments ?L1) = []" "lx_errors (skipWSAndComments ?L1) = []"
    by code_simp+
  have c1: "LexAll no_tables ?L1 = Inr ([], [])"
    using NUL_acts_as_end_of_input [where lx = ?L1 and rest = "[0x78]" and U = no_tables] h1 e1 by simp
  let ?L2 = "NewLexer [0x22, 0x61, 0x5C, 0x22, 0x62, 0, 0x63, 0x22]"
  have h2: "drop (lx_i ?L2) (lx_src ?L2) = rn CHR 0x22 # [0x61, 0x5C, 0x22, 0x62] @ 0 # [0x63, 0x22]
      \<and> string_body [0x61, 0x5C, 0x22, 0x62]"
    by code_simp
  have p2: "lx_line ?L2 = 1" "lx_col ?L2 = 1" by code_simp+
  have c2: "scanString ?L2 = Inr (errorAt 1 1 (gostr ''unterminated string literal'') (consume 5 ?L2))"
    using NUL_acts_as_end_of_input [where lx = ?L2 and rest = "[0x63, 0x22]" and body = "[0x61, 0x5C, 0x22, 0x62]"]
      h2 p2 by (simp add: eval_nat_numeral)
  let ?L3 = "NewLexer [0x22, 0x61, 0x5C, 0, 0x22]"
  have h3: "drop (lx_i ?L3) (lx_src ?L3) = rn CHR 0x22 # [0x61] @ rn CHR 0x5C # 0 # [0x22] \<and> string_body [0x61]"
    by code_simp
  have p3: "lx_line ?L3 = 1" "lx_col ?L3 = 1" by code_simp+
  have c3: "scanString ?L3 = Inr (errorAt 1 1 (gostr ''unterminated string escape'') (consume 3 ?L3))"
    using NUL_acts_as_end_of_input [where lx = ?L3 and rest = "[0x22]" and body = "[0x61]"] h3 p3 by (simp add: eval_nat_numeral)
  let ?L4 = "NewLexer [0x60, 0x61, 0, 0x60]"
  have h4: "drop (lx_i ?L4) (lx_src ?L4) = rn CHR 0x60 # [0x61] @ 0 # [0x60] \<and> list_all plain_in_raw [0x61]"
    by code_simp
  have p4: "lx_line ?L4 = 1" "lx_col ?L4 = 1" by code_simp+
  have c4: "scanRawString ?L4 = errorAt 1 1 (gostr ''unterminated raw string'') (consume 2 ?L4)"
    using NUL_acts_as_end_of_input [where lx = ?L4 and rest = "[0x60]" and body = "[0x61]"] h4 p4 by (simp add: eval_nat_numeral)
  let ?L5 = "NewLexer [0x2F, 0x2A, 0x2F, 0x2A, 0x78, 0x2A, 0x2F, 0x79, 0, 0x2A, 0x2F]"
  have h5: "drop (lx_i ?L5) (lx_src ?L5) =
        rn CHR ''/'' # rn CHR ''*'' # [0x2F, 0x2A, 0x78, 0x2A, 0x2F, 0x79] @ 0 # [0x2A, 0x2F]
      \<and> comment_body 1 [0x2F, 0x2A, 0x78, 0x2A, 0x2F, 0x79]"
    by code_simp
  have p5: "lx_line ?L5 = 1" "lx_col ?L5 = 1" by code_simp+
  have c5: "skipWSAndComments ?L5 = errorAt 1 1 (gostr ''unterminated block comment'') (consume 8 ?L5)"
    using NUL_acts_as_end_of_input [where lx = ?L5 and rest = "[0x2A, 0x2F]"
        and body = "[0x2F, 0x2A, 0x78, 0x2A, 0x2F, 0x79]"] h5 p5 by (simp add: eval_nat_numeral)
  let ?L6 = "NewLexer [0x27, 0, 0x27]"
  have h6: "drop (lx_i ?L6) (lx_src ?L6) = rn CHR 0x27 # 0 # [0x27]" by code_simp
  have p6: "lx_line ?L6 = 1" "lx_col ?L6 = 1" by code_simp+
  have c6: "scanChar ?L6 = errorAt 1 1 (gostr ''empty or invalid char literal'') (consume 1 ?L6)"
    using NUL_acts_as_end_of_input [where lx = ?L6 and rest = "[0x27]"] h6 p6 by (simp add: eval_nat_numeral)
  let ?L7 = "NewLexer [0x27, 0x5C, 0, 0x27]"
  have h7: "drop (lx_i ?L7) (lx_src ?L7) = rn CHR 0x27 # rn CHR 0x5C # 0 # [0x27]" by code_simp
  have p7: "lx_line ?L7 = 1" "lx_col ?L7 = 1" by code_simp+
  have c7: "scanChar ?L7 = errorAt 1 1 (gostr ''unterminated char escape'') (consume 2 ?L7)"
    using NUL_acts_as_end_of_input [where lx = ?L7 and rest = "[0x27]"] h7 p7 by (simp add: eval_nat_numeral)
  let ?L8 = "NewLexer [0x27, 0x5C, 0x6E, 0, 0x27]"
  have h8: "drop (lx_i ?L8) (lx_src ?L8) = rn CHR 0x27 # rn CHR 0x5C # 0x6E # 0 # [0x27]
      \<and> (0x6E::int) \<noteq> 0 \<and> 0x6E \<noteq> rn CHR 0x0A" by code_simp
  have p8: "lx_line ?L8 = 1" "lx_col ?L8 = 1" by code_simp+
  have c8: "scanChar ?L8 = errorAt 1 1 (gostr ''unterminated char literal'') (consume 3 ?L8)"
    using NUL_acts_as_end_of_input [where lx = ?L8 and rest = "[0x27]" and ch = "0x6E"] h8 p8 by (simp add: eval_nat_numeral)
  let ?L9 = "NewLexer [0x27, 0x61, 0, 0x27]"
  have h9: "drop (lx_i ?L9) (lx_src ?L9) = rn CHR 0x27 # 0x61 # 0 # [0x27]
      \<and> (0x61::int) \<noteq> 0 \<and> 0x61 \<noteq> rn CHR 0x5C \<and> 0x61 \<noteq> rn CHR 0x0A \<and> 0x61 \<noteq> rn CHR 0x27" by code_simp
  have p9: "lx_line ?L9 = 1" "lx_col ?L9 = 1" by code_simp+
  have c9: "scanChar ?L9 = errorAt 1 1 (gostr ''unterminated char literal'') (consume 2 ?L9)"
    using NUL_acts_as_end_of_input [where lx = ?L9 and rest = "[0x27]" and ch = "0x61"] h9 p9 by (simp add: eval_nat_numeral)
  let ?L10 = "NewLexer [0x2F, 0x2F, 0x61, 0, 0x62]"
  have h10: "drop (lx_i ?L10) (lx_src ?L10) = rn CHR ''/'' # rn CHR ''/'' # [0x61] @ 0 # [0x62]
      \<and> list_all plain_in_line [0x61]" by code_simp
  have e10: "skipWSAndComments (consume 4 ?L10) = consume 4 ?L10" by code_simp
  have c10: "skipWSAndComments ?L10 = consume 4 ?L10"
    using NUL_acts_as_end_of_input [where lx = ?L10 and rest = "[0x62]" and body = "[0x61]"] h10 e10 by (simp add: eval_nat_numeral)
  show ?thesis using c1 c2 c3 c4 c5 c6 c7 c8 c9 c10 by blast
qed

text \<open>
  The claim as stated names an "unterminated" error for the character literal too, and
  takes every U+0000 for the end of the input. For a quote, U+0000 and a quote the error
  recorded is "empty or invalid char literal"; and with a U+0000 inside a line comment the
  run goes on and returns the identifier that follows, where the input that ends at that
  place gives no token.
\<close>

theorem NUL_after_opening_quote_of_char_literal:
  "scanChar (NewLexer [0x27, 0, 0x27]) =
     errorAt 1 1 (gostr ''empty or invalid char literal'') (consume 1 (NewLexer [0x27, 0, 0x27]))
   \<and> lx_errors (scanChar (NewLexer [0x27, 0, 0x27])) \<noteq> [Sprintf_error 1 1 (gostr ''unterminated char literal'')]
   \<and> LexAll no_tables (NewLexer [0x2F, 0x2F, 0x61, 0, 0x62]) =
       Inr ([\<lparr>Type = IDENT, Lexeme = [0x62], Line = 1, Column = 5, IntVal = None, FloatVal = None\<rparr>], [])
   \<and> LexAll no_tables (NewLexer [0x2F, 0x2F, 0x61]) = Inr ([], [])"
  by code_simp

end
